theory Spec2Isabelle
  imports Main "HOL-Library.Word" "HOL-Library.Sublist" "HOL-Library.List_Lexorder"
    "HOL-Library.Char_ord"
begin

section \<open>Bytes, buffers and status values\<close>

text \<open>
  The in-memory environment of \<^verbatim>\<open>src/util/memenv/memenv.cc\<close>.  A byte of memory is a
  \<open>cell\<close>: \<open>Some b\<close> once the program has stored the byte \<open>b\<close> there, \<open>None\<close> while the
  memory is as \<^verbatim>\<open>new uint8_t[...]\<close> returned it (its value is indeterminate).  A block is
  an array \<^verbatim>\<open>uint8_t[kBlockSize]\<close>, read and written at indices below \<open>kBlockSize\<close> only;
  a caller's scratch buffer is a list whose length is its capacity.

  \<^verbatim>\<open>size_\<close>, offsets and lengths are \<^verbatim>\<open>uint64_t\<close>/\<^verbatim>\<open>size_t\<close> in the source.  Every byte counted
  by them is resident in memory, so no counter reaches \<open>2 ^ 64\<close>; they are natural numbers
  here, and each subtraction of the source is guarded as the source guards it.
  A data member \<^verbatim>\<open>x_\<close> of the source is the field \<open>m_x\<close>.
\<close>

type_synonym byte = "8 word"
type_synonym cell = "byte option"
type_synonym block = "nat \<Rightarrow> cell"
type_synonym buffer = "cell list"

text \<open>
  A \<^verbatim>\<open>Status\<close> together with the values the call leaves in its out-parameters:
  \<open>OK x\<close> is \<^verbatim>\<open>Status::OK()\<close>, \<open>IOError msg msg2\<close> is \<^verbatim>\<open>Status::IOError(msg, msg2)\<close>
  (returned before the call has changed anything), and \<open>Fault\<close> is an execution the
  language gives no result: an index outside a vector or buffer, a deleted or null
  object, a failed \<^verbatim>\<open>assert\<close> or \<^verbatim>\<open>CHECK\<close>.
\<close>

datatype 'a status = OK 'a | IOError string string | Fault

definition and_then :: "'a status \<Rightarrow> ('a \<Rightarrow> 'b status) \<Rightarrow> 'b status" where
  "and_then m k = (case m of OK x \<Rightarrow> k x | IOError a b \<Rightarrow> IOError a b | Fault \<Rightarrow> Fault)"

section \<open>FileState\<close>

definition kBlockSize :: nat where
  "kBlockSize = 8 * 1024"

record FileState =
  m_refs :: int
  m_blocks :: "block list"
  m_size :: nat

definition FileState_new :: FileState where
  "FileState_new = \<lparr>m_refs = 0, m_blocks = [], m_size = 0\<rparr>"

definition new_block :: block where
  "new_block = (\<lambda>i. None)"

definition Size :: "FileState \<Rightarrow> nat" where
  "Size f = m_size f"

text \<open>\<^verbatim>\<open>memcpy(b + off, src, n)\<close> into a block, and the \<open>n\<close> cells at \<^verbatim>\<open>b + off\<close>.\<close>

definition memcpy_block :: "block \<Rightarrow> nat \<Rightarrow> cell list \<Rightarrow> nat \<Rightarrow> block" where
  "memcpy_block b off src n = (\<lambda>i. if off \<le> i \<and> i < off + n then src ! (i - off) else b i)"

definition block_cells :: "block \<Rightarrow> nat \<Rightarrow> nat \<Rightarrow> cell list" where
  "block_cells b off n = map (\<lambda>i. b (off + i)) [0..<n]"

text \<open>\<^verbatim>\<open>memcpy(scratch + dst, cells, length cells)\<close>, inside the buffer.\<close>

definition memcpy_buffer :: "buffer \<Rightarrow> nat \<Rightarrow> cell list \<Rightarrow> buffer" where
  "memcpy_buffer scratch dst cells = take dst scratch @ cells @ drop (dst + length cells) scratch"

text \<open>
  The \<^verbatim>\<open>Slice\<close> a read returns: the empty slice, \<^verbatim>\<open>Slice(blocks_[block] + block_offset, n)\<close>
  (a view into a block), or \<^verbatim>\<open>Slice(scratch, n)\<close>.
\<close>

datatype slice = Slice_empty | Slice_block nat nat nat | Slice_scratch nat

fun slice_size :: "slice \<Rightarrow> nat" where
  "slice_size Slice_empty = 0"
| "slice_size (Slice_block block block_offset n) = n"
| "slice_size (Slice_scratch n) = n"

text \<open>The cells a slice designates, given the file and the scratch buffer after the read.\<close>

fun slice_cells :: "FileState \<Rightarrow> buffer \<Rightarrow> slice \<Rightarrow> cell list" where
  "slice_cells f scratch Slice_empty = []"
| "slice_cells f scratch (Slice_block block block_offset n) =
     block_cells (m_blocks f ! block) block_offset n"
| "slice_cells f scratch (Slice_scratch n) = take n scratch"

text \<open>The copying loop of \<^verbatim>\<open>FileState::Read\<close>; \<open>dst\<close> is the offset of \<^verbatim>\<open>dst\<close> in scratch.\<close>

function Read_loop :: "block list \<Rightarrow> nat \<Rightarrow> nat \<Rightarrow> nat \<Rightarrow> nat \<Rightarrow> buffer \<Rightarrow> buffer status" where
  "Read_loop blocks block block_offset bytes_to_copy dst scratch =
     (if bytes_to_copy > 0 then
        (let avail = kBlockSize - block_offset;
             avail = (if avail > bytes_to_copy then bytes_to_copy else avail)
         in if length blocks \<le> block then Fault
            else if length scratch < dst + avail then Fault
            else Read_loop blocks (block + 1) 0 (bytes_to_copy - avail) (dst + avail)
                   (memcpy_buffer scratch dst (block_cells (blocks ! block) block_offset avail)))
      else OK scratch)"
  by pat_completeness auto
termination
  by (relation "measure (\<lambda>(blocks, block, block_offset, bytes_to_copy, dst, scratch).
        bytes_to_copy + (if kBlockSize \<le> block_offset then 1 else 0))")
    (auto simp: kBlockSize_def)

definition Read :: "FileState \<Rightarrow> nat \<Rightarrow> nat \<Rightarrow> buffer \<Rightarrow> (slice \<times> buffer) status" where
  "Read f offset n scratch =
     (if offset > m_size f then IOError ''Offset greater than file size.'' ''''
      else
        (let available = m_size f - offset;
             n = (if n > available then available else n)
         in if n = 0 then OK (Slice_empty, scratch)
            else
              (let block = offset div kBlockSize;
                   block_offset = offset mod kBlockSize
               in if n \<le> kBlockSize - block_offset then
                    (if length (m_blocks f) \<le> block then Fault
                     else OK (Slice_block block block_offset n, scratch))
                  else and_then (Read_loop (m_blocks f) block block_offset n 0 scratch)
                         (\<lambda>scratch'. OK (Slice_scratch n, scratch')))))"

text \<open>
  \<^verbatim>\<open>FileState::AppendRaw(src, src_len)\<close>: the list \<open>src\<close> is the \<open>src_len\<close> cells at \<^verbatim>\<open>src\<close>.
  \<^verbatim>\<open>blocks_.back()\<close> of an empty vector has no result.
\<close>

function AppendRaw :: "FileState \<Rightarrow> cell list \<Rightarrow> FileState status" where
  "AppendRaw f src =
     (if length src > 0 then
        (let offset = m_size f mod kBlockSize;
             blocks = (if offset \<noteq> 0 then m_blocks f else m_blocks f @ [new_block]);
             avail = (if offset \<noteq> 0 then kBlockSize - offset else kBlockSize);
             avail = (if avail > length src then length src else avail)
         in if blocks = [] then Fault
            else AppendRaw
                   (f\<lparr>m_blocks := blocks[length blocks - 1 :=
                                    memcpy_block (last blocks) offset src avail],
                      m_size := m_size f + avail\<rparr>)
                   (drop avail src))
      else OK f)"
  by pat_completeness auto
termination
  by (relation "measure (\<lambda>(f, src). length src)") (auto simp: kBlockSize_def)

definition Append :: "FileState \<Rightarrow> byte list \<Rightarrow> FileState status" where
  "Append f data = AppendRaw f (map Some data)"

text \<open>
  The value of a pointer, on a target whose pointers are 64 bits wide and stored least
  significant byte first (x86-64).  \<^verbatim>\<open>memset(&p, 0, sizeof(uint8_t))\<close> writes a zero over the
  first byte of the pointer variable \<^verbatim>\<open>p\<close> itself, not over anything it points to:
  \<open>memset_first_byte p\<close> is the pointer the variable holds afterwards, the old value with
  its low eight bits cleared.
\<close>

type_synonym address = "64 word"

definition memset_first_byte :: "address \<Rightarrow> address" where
  "memset_first_byte p = push_bit 8 (drop_bit 8 p)"

text \<open>
  \<^verbatim>\<open>FileState::PreAllocate(size)\<close>, with \<open>sz\<close> for the parameter \<^verbatim>\<open>size\<close> and \<open>new_padding\<close> for
  the address that \<^verbatim>\<open>new uint8_t[size]\<close> returns, which the allocator chooses and the
  program does not.  \<^verbatim>\<open>memset(&padding, 0, sizeof(uint8_t))\<close> clears one byte of the pointer
  variable and no byte of the buffer.  Unless \<open>new_padding\<close> is a multiple of 256, the
  variable then holds an address that \<^verbatim>\<open>new[]\<close> did not return; \<^verbatim>\<open>AppendRaw\<close> copies \<open>sz\<close>
  bytes from there and \<^verbatim>\<open>delete []\<close> frees it, which the language gives no meaning: a
  \<open>Fault\<close>, also for \<open>sz = 0\<close>.  If \<open>new_padding\<close> is a multiple of 256 the pointer is
  unchanged, and the \<open>sz\<close> cells that \<^verbatim>\<open>AppendRaw\<close> copies are cells the program never
  wrote.  \<^verbatim>\<open>AppendRaw\<close> has added \<open>sz\<close> to the size when \<^verbatim>\<open>size_ -= size\<close> runs, so the
  subtraction does not wrap.
\<close>

definition PreAllocate :: "FileState \<Rightarrow> nat \<Rightarrow> address \<Rightarrow> FileState status" where
  "PreAllocate f sz new_padding =
     (let padding = memset_first_byte new_padding in
      if padding \<noteq> new_padding then Fault
      else and_then (AppendRaw f (replicate sz None))
             (\<lambda>f'. OK (f'\<lparr>m_size := m_size f' - sz\<rparr>)))"

text \<open>
  A sequence of \<^verbatim>\<open>Append\<close> calls on one file, each on the state the previous one left; a
  call that does not return \<^verbatim>\<open>OK\<close> ends the sequence.  This is what the loop of
  \<^verbatim>\<open>WritableFileImpl::AppendVector\<close> does to the file of the view (\<open>AppendVector_Appends\<close>).
\<close>

fun Appends :: "FileState \<Rightarrow> byte list list \<Rightarrow> FileState status" where
  "Appends f [] = OK f"
| "Appends f (d # ds) = and_then (Append f d) (\<lambda>f'. Appends f' ds)"

subsection \<open>The logical content and the storage invariant\<close>

text \<open>
  \<open>cell_at f i\<close> is the cell at logical position \<open>i\<close>: offset \<open>i mod kBlockSize\<close> of block
  \<open>i div kBlockSize\<close>, where \<^verbatim>\<open>Read\<close> looks for it.  \<open>capacity_ok\<close> and \<open>tail_used\<close> are the
  two bounds of the storage invariant: the blocks hold \<open>m_size\<close> bytes, and the last
  block holds at least one of them.  \<open>append_blocks\<close>, \<open>append_avail\<close> and \<open>append_step\<close>
  name the block vector, the chunk length and the state after one iteration of the loop
  of \<^verbatim>\<open>AppendRaw\<close>.
\<close>

definition cells_at :: "block list \<Rightarrow> nat \<Rightarrow> cell" where
  "cells_at bs i = (bs ! (i div kBlockSize)) (i mod kBlockSize)"

definition cell_at :: "FileState \<Rightarrow> nat \<Rightarrow> cell" where
  "cell_at f i = cells_at (m_blocks f) i"

definition capacity_ok :: "FileState \<Rightarrow> bool" where
  "capacity_ok f = (m_size f \<le> length (m_blocks f) * kBlockSize)"

definition tail_used :: "FileState \<Rightarrow> bool" where
  "tail_used f = (m_blocks f = [] \<or> (length (m_blocks f) - 1) * kBlockSize < m_size f)"

definition append_blocks :: "FileState \<Rightarrow> block list" where
  "append_blocks f = (if m_size f mod kBlockSize \<noteq> 0 then m_blocks f else m_blocks f @ [new_block])"

definition append_avail :: "FileState \<Rightarrow> cell list \<Rightarrow> nat" where
  "append_avail f src =
     (let avail = (if m_size f mod kBlockSize \<noteq> 0 then kBlockSize - m_size f mod kBlockSize else kBlockSize)
      in if avail > length src then length src else avail)"

definition append_step :: "FileState \<Rightarrow> cell list \<Rightarrow> FileState" where
  "append_step f src =
     f\<lparr>m_blocks := (append_blocks f)[length (append_blocks f) - 1 :=
          memcpy_block (last (append_blocks f)) (m_size f mod kBlockSize) src (append_avail f src)],
       m_size := m_size f + append_avail f src\<rparr>"

section \<open>FileState objects and the views on them\<close>

text \<open>
  A \<^verbatim>\<open>FileState*\<close> is an address, \<open>NULL\<close> the null pointer.  The heap lists the \<^verbatim>\<open>FileState\<close>
  objects in the order \<^verbatim>\<open>new FileState()\<close> made them, the object at address \<open>p\<close> in slot
  \<open>p - 1\<close>: \<open>Some f\<close> while it is allocated, \<open>None\<close> once \<^verbatim>\<open>delete this\<close> has run.  An address
  is never handed out twice, so a pointer to a deleted object stays recognisable:
  using it is a \<open>Fault\<close>.
\<close>

type_synonym ptr = nat
type_synonym heap = "FileState option list"

definition NULL :: ptr where
  "NULL = 0"

definition deref :: "heap \<Rightarrow> ptr \<Rightarrow> FileState option" where
  "deref h p = (if p = NULL \<or> length h < p then None else h ! (p - 1))"

definition heap_put :: "heap \<Rightarrow> ptr \<Rightarrow> FileState option \<Rightarrow> heap" where
  "heap_put h p x = h[p - 1 := x]"

definition new_FileState :: "heap \<Rightarrow> ptr \<times> heap" where
  "new_FileState h = (length h + 1, h @ [Some FileState_new])"

definition Ref :: "heap \<Rightarrow> ptr \<Rightarrow> heap status" where
  "Ref h p =
     (case deref h p of
        None \<Rightarrow> Fault
      | Some f \<Rightarrow> OK (heap_put h p (Some (f\<lparr>m_refs := m_refs f + 1\<rparr>))))"

text \<open>
  \<^verbatim>\<open>Unref\<close>: decrement, \<^verbatim>\<open>assert(refs_ >= 0)\<close>, and \<^verbatim>\<open>delete this\<close> when \<^verbatim>\<open>refs_ <= 0\<close>.  The
  failed assertion is a \<open>Fault\<close>; no holder of a reference reaches it.
\<close>

definition Unref :: "heap \<Rightarrow> ptr \<Rightarrow> heap status" where
  "Unref h p =
     (case deref h p of
        None \<Rightarrow> Fault
      | Some f \<Rightarrow>
          (let refs = m_refs f - 1
           in if refs < 0 then Fault
              else if refs \<le> 0 then OK (heap_put h p None)
              else OK (heap_put h p (Some (f\<lparr>m_refs := refs\<rparr>)))))"

text \<open>A member function of \<^verbatim>\<open>FileState\<close> called through a pointer.\<close>

definition update_file :: "heap \<Rightarrow> ptr \<Rightarrow> (FileState \<Rightarrow> FileState status) \<Rightarrow> heap status" where
  "update_file h p m =
     (case deref h p of
        None \<Rightarrow> Fault
      | Some f \<Rightarrow> and_then (m f) (\<lambda>f'. OK (heap_put h p (Some f'))))"

text \<open>
  The three view classes.  Each constructor stores the pointer and calls \<^verbatim>\<open>Ref\<close>; each
  destructor calls \<^verbatim>\<open>Unref\<close>.  A member function applied to a view of another class is
  a \<open>Fault\<close>: the source's types exclude the call.
\<close>

datatype view =
    SequentialFileImpl (m_file: ptr) (m_pos: nat)
  | RandomAccessFileImpl (m_file: ptr)
  | WritableFileImpl (m_file: ptr)

definition SequentialFileImpl_new :: "heap \<Rightarrow> ptr \<Rightarrow> (view \<times> heap) status" where
  "SequentialFileImpl_new h file = and_then (Ref h file) (\<lambda>h'. OK (SequentialFileImpl file 0, h'))"

definition RandomAccessFileImpl_new :: "heap \<Rightarrow> ptr \<Rightarrow> (view \<times> heap) status" where
  "RandomAccessFileImpl_new h file = and_then (Ref h file) (\<lambda>h'. OK (RandomAccessFileImpl file, h'))"

definition WritableFileImpl_new :: "heap \<Rightarrow> ptr \<Rightarrow> (view \<times> heap) status" where
  "WritableFileImpl_new h file = and_then (Ref h file) (\<lambda>h'. OK (WritableFileImpl file, h'))"

definition view_delete :: "heap \<Rightarrow> view \<Rightarrow> heap status" where
  "view_delete h v = Unref h (m_file v)"

fun SequentialFile_Read :: "heap \<Rightarrow> view \<Rightarrow> nat \<Rightarrow> buffer \<Rightarrow> (slice \<times> buffer \<times> view) status" where
  "SequentialFile_Read h (SequentialFileImpl file pos) n scratch =
     (case deref h file of
        None \<Rightarrow> Fault
      | Some f \<Rightarrow>
          and_then (Read f pos n scratch)
            (\<lambda>(result, scratch'). OK (result, scratch', SequentialFileImpl file (pos + slice_size result))))"
| "SequentialFile_Read h v n scratch = Fault"

fun SequentialFile_Skip :: "heap \<Rightarrow> view \<Rightarrow> nat \<Rightarrow> view status" where
  "SequentialFile_Skip h (SequentialFileImpl file pos) n =
     (case deref h file of
        None \<Rightarrow> Fault
      | Some f \<Rightarrow>
          if pos > Size f then IOError ''pos_ > file_->Size()'' ''''
          else
            (let available = Size f - pos;
                 n = (if n > available then available else n)
             in OK (SequentialFileImpl file (pos + n))))"
| "SequentialFile_Skip h v n = Fault"

fun RandomAccessFile_Read :: "heap \<Rightarrow> view \<Rightarrow> nat \<Rightarrow> nat \<Rightarrow> buffer \<Rightarrow> (slice \<times> buffer) status" where
  "RandomAccessFile_Read h (RandomAccessFileImpl file) offset n scratch =
     (case deref h file of None \<Rightarrow> Fault | Some f \<Rightarrow> Read f offset n scratch)"
| "RandomAccessFile_Read h v offset n scratch = Fault"

fun RandomAccessFile_Size :: "heap \<Rightarrow> view \<Rightarrow> nat status" where
  "RandomAccessFile_Size h (RandomAccessFileImpl file) =
     (case deref h file of None \<Rightarrow> Fault | Some f \<Rightarrow> OK (Size f))"
| "RandomAccessFile_Size h v = Fault"

fun WritableFile_PreAllocate :: "heap \<Rightarrow> view \<Rightarrow> nat \<Rightarrow> address \<Rightarrow> heap status" where
  "WritableFile_PreAllocate h (WritableFileImpl file) sz new_padding =
     update_file h file (\<lambda>f. PreAllocate f sz new_padding)"
| "WritableFile_PreAllocate h v sz new_padding = Fault"

fun WritableFile_Append :: "heap \<Rightarrow> view \<Rightarrow> byte list \<Rightarrow> heap status" where
  "WritableFile_Append h (WritableFileImpl file) data = update_file h file (\<lambda>f. Append f data)"
| "WritableFile_Append h v data = Fault"

text \<open>\<^verbatim>\<open>AppendVector\<close>: \<^verbatim>\<open>RETURN_NOT_OK(file_->Append(data))\<close> for each slice in turn.\<close>

fun WritableFile_AppendVector :: "heap \<Rightarrow> view \<Rightarrow> byte list list \<Rightarrow> heap status" where
  "WritableFile_AppendVector h (WritableFileImpl file) [] = OK h"
| "WritableFile_AppendVector h (WritableFileImpl file) (data # data_vector) =
     and_then (WritableFile_Append h (WritableFileImpl file) data)
       (\<lambda>h'. WritableFile_AppendVector h' (WritableFileImpl file) data_vector)"
| "WritableFile_AppendVector h v data_vector = Fault"

fun WritableFile_Size :: "heap \<Rightarrow> view \<Rightarrow> nat status" where
  "WritableFile_Size h (WritableFileImpl file) =
     (case deref h file of None \<Rightarrow> Fault | Some f \<Rightarrow> OK (Size f))"
| "WritableFile_Size h v = Fault"

text \<open>The writes a caller makes through a writable view, one after the other.\<close>

datatype write_op = Write_Append "byte list" | Write_AppendVector "byte list list"

fun write_one :: "heap \<Rightarrow> view \<Rightarrow> write_op \<Rightarrow> heap status" where
  "write_one h v (Write_Append data) = WritableFile_Append h v data"
| "write_one h v (Write_AppendVector data_vector) = WritableFile_AppendVector h v data_vector"

fun writes :: "heap \<Rightarrow> view \<Rightarrow> write_op list \<Rightarrow> heap status" where
  "writes h v [] = OK h"
| "writes h v (x # xs) = and_then (write_one h v x) (\<lambda>h'. writes h' v xs)"

fun written :: "write_op \<Rightarrow> byte list list" where
  "written (Write_Append data) = [data]"
| "written (Write_AppendVector data_vector) = data_vector"

section \<open>InMemoryEnv\<close>

text \<open>
  \<^verbatim>\<open>std::map<std::string, FileState*>\<close>: the entries in the order of their keys, which is
  the order an iterator visits them.  \<open>map_of\<close> is \<^verbatim>\<open>find\<close>, \<open>map_assign\<close> is
  \<^verbatim>\<open>file_map_[k] = v\<close>, \<open>map_index\<close> is \<^verbatim>\<open>file_map_[k]\<close> read (a missing key is inserted with
  the null pointer), \<open>map_erase\<close> is \<^verbatim>\<open>erase(k)\<close>.
\<close>

type_synonym FileSystem = "(string \<times> ptr) list"

fun map_assign :: "FileSystem \<Rightarrow> string \<Rightarrow> ptr \<Rightarrow> FileSystem" where
  "map_assign [] k v = [(k, v)]"
| "map_assign ((k', v') # m) k v =
     (if k = k' then (k, v) # m
      else if k < k' then (k, v) # (k', v') # m
      else (k', v') # map_assign m k v)"

definition map_index :: "FileSystem \<Rightarrow> string \<Rightarrow> ptr \<times> FileSystem" where
  "map_index m k = (case map_of m k of Some v \<Rightarrow> (v, m) | None \<Rightarrow> (NULL, map_assign m k NULL))"

definition map_erase :: "FileSystem \<Rightarrow> string \<Rightarrow> FileSystem" where
  "map_erase m k = filter (\<lambda>e. fst e \<noteq> k) m"

text \<open>The state of an \<^verbatim>\<open>InMemoryEnv\<close>, with the heap its pointers point into.\<close>

record InMemoryEnv =
  fs_heap :: heap
  m_file_map :: FileSystem

definition NewMemEnv :: InMemoryEnv where
  "NewMemEnv = \<lparr>fs_heap = [], m_file_map = []\<rparr>"

definition NewSequentialFile :: "InMemoryEnv \<Rightarrow> string \<Rightarrow> (view \<times> InMemoryEnv) status" where
  "NewSequentialFile s fname =
     (case map_of (m_file_map s) fname of
        None \<Rightarrow> IOError fname ''File not found''
      | Some file \<Rightarrow>
          and_then (SequentialFileImpl_new (fs_heap s) file) (\<lambda>(v, h). OK (v, s\<lparr>fs_heap := h\<rparr>)))"

definition NewRandomAccessFile :: "InMemoryEnv \<Rightarrow> string \<Rightarrow> (view \<times> InMemoryEnv) status" where
  "NewRandomAccessFile s fname =
     (case map_of (m_file_map s) fname of
        None \<Rightarrow> IOError fname ''File not found''
      | Some file \<Rightarrow>
          and_then (RandomAccessFileImpl_new (fs_heap s) file) (\<lambda>(v, h). OK (v, s\<lparr>fs_heap := h\<rparr>)))"

definition DeleteFileInternal :: "InMemoryEnv \<Rightarrow> string \<Rightarrow> InMemoryEnv status" where
  "DeleteFileInternal s fname =
     (case map_of (m_file_map s) fname of
        None \<Rightarrow> OK s
      | Some file \<Rightarrow>
          and_then (Unref (fs_heap s) file)
            (\<lambda>h. OK \<lparr>fs_heap = h, m_file_map = map_erase (m_file_map s) fname\<rparr>))"

definition NewWritableFile :: "InMemoryEnv \<Rightarrow> string \<Rightarrow> (view \<times> InMemoryEnv) status" where
  "NewWritableFile s fname =
     and_then (if map_of (m_file_map s) fname \<noteq> None then DeleteFileInternal s fname else OK s)
       (\<lambda>s1. let (file, h1) = new_FileState (fs_heap s1)
             in and_then (Ref h1 file)
                  (\<lambda>h2. and_then (WritableFileImpl_new h2 file)
                     (\<lambda>(v, h3). OK (v, \<lparr>fs_heap = h3,
                                        m_file_map = map_assign (m_file_map s1) fname file\<rparr>))))"

definition FileExists :: "InMemoryEnv \<Rightarrow> string \<Rightarrow> bool" where
  "FileExists s fname = (map_of (m_file_map s) fname \<noteq> None)"

fun GetChildren_loop :: "string \<Rightarrow> FileSystem \<Rightarrow> string list" where
  "GetChildren_loop dir [] = []"
| "GetChildren_loop dir ((filename, file) # rest) =
     (if length filename \<ge> length dir + 1 \<and> filename ! length dir = CHR ''/'' \<and>
         prefix dir filename
      then drop (length dir + 1) filename # GetChildren_loop dir rest
      else GetChildren_loop dir rest)"

definition GetChildren :: "InMemoryEnv \<Rightarrow> string \<Rightarrow> string list status" where
  "GetChildren s dir = OK (GetChildren_loop dir (m_file_map s))"

definition DeleteFile :: "InMemoryEnv \<Rightarrow> string \<Rightarrow> InMemoryEnv status" where
  "DeleteFile s fname =
     (if map_of (m_file_map s) fname = None then IOError fname ''File not found''
      else DeleteFileInternal s fname)"

fun DeleteRecursively_loop :: "string \<Rightarrow> FileSystem \<Rightarrow> FileSystem" where
  "DeleteRecursively_loop dir [] = []"
| "DeleteRecursively_loop dir ((filename, file) # rest) =
     (if length filename \<ge> length dir \<and> prefix dir filename
      then DeleteRecursively_loop dir rest
      else (filename, file) # DeleteRecursively_loop dir rest)"

definition DeleteRecursively :: "InMemoryEnv \<Rightarrow> string \<Rightarrow> InMemoryEnv status" where
  "DeleteRecursively s dirname =
     (if dirname = [] then Fault
      else
        (let dir = (if last dirname \<noteq> CHR ''/'' then dirname @ ''/'' else dirname)
         in OK (s\<lparr>m_file_map := DeleteRecursively_loop dir (m_file_map s)\<rparr>)))"

definition GetFileSize :: "InMemoryEnv \<Rightarrow> string \<Rightarrow> nat status" where
  "GetFileSize s fname =
     (case map_of (m_file_map s) fname of
        None \<Rightarrow> IOError fname ''File not found''
      | Some file \<Rightarrow> (case deref (fs_heap s) file of None \<Rightarrow> Fault | Some f \<Rightarrow> OK (Size f)))"

definition RenameFile :: "InMemoryEnv \<Rightarrow> string \<Rightarrow> string \<Rightarrow> InMemoryEnv status" where
  "RenameFile s src target =
     (if map_of (m_file_map s) src = None then IOError src ''File not found''
      else
        and_then (DeleteFileInternal s target)
          (\<lambda>s1. let (file, m1) = map_index (m_file_map s1) src;
                    m2 = map_assign m1 target file
                in OK (s1\<lparr>m_file_map := map_erase m2 src\<rparr>)))"

section \<open>An environment and its open views\<close>

text \<open>
  The callers' side: the environment together with the view objects handed out so far,
  a view's handle being its index (\<open>None\<close> once the caller has deleted the view).  An
  operation is one call a caller makes; calls do not overlap.  \<open>exec\<close> gives the state
  after a call that returned \<^verbatim>\<open>OK\<close>; a call that returned an error status has changed
  nothing (each error return of the source comes before the first assignment), so
  \<open>run\<close> carries the state on unchanged.  A call on a deleted view, or on a view of the
  wrong class, is a \<open>Fault\<close>, and so is everything after it.  \<open>Op_PreAllocate\<close> carries,
  after the view and the size, the address the allocator returns for the padding
  during the call.
\<close>

record world =
  w_env :: InMemoryEnv
  w_views :: "view option list"

definition world_init :: world where
  "world_init = \<lparr>w_env = NewMemEnv, w_views = []\<rparr>"

definition view_at :: "world \<Rightarrow> nat \<Rightarrow> view option" where
  "view_at w i = (if i < length (w_views w) then w_views w ! i else None)"

definition with_heap :: "world \<Rightarrow> heap \<Rightarrow> world" where
  "with_heap w h = w\<lparr>w_env := (w_env w)\<lparr>fs_heap := h\<rparr>\<rparr>"

definition with_view :: "world \<Rightarrow> nat \<Rightarrow> view option \<Rightarrow> world" where
  "with_view w i v = w\<lparr>w_views := (w_views w)[i := v]\<rparr>"

definition open_view :: "world \<Rightarrow> (view \<times> InMemoryEnv) status \<Rightarrow> world status" where
  "open_view w r = and_then r (\<lambda>(v, s). OK \<lparr>w_env = s, w_views = w_views w @ [Some v]\<rparr>)"

definition on_view :: "world \<Rightarrow> nat \<Rightarrow> (heap \<Rightarrow> view \<Rightarrow> world status) \<Rightarrow> world status" where
  "on_view w i m = (case view_at w i of None \<Rightarrow> Fault | Some v \<Rightarrow> m (fs_heap (w_env w)) v)"

datatype op =
    Op_NewWritableFile string
  | Op_NewSequentialFile string
  | Op_NewRandomAccessFile string
  | Op_delete nat
  | Op_Append nat "byte list"
  | Op_AppendVector nat "byte list list"
  | Op_PreAllocate nat nat address
  | Op_Read nat nat buffer
  | Op_Skip nat nat
  | Op_RandomRead nat nat nat buffer
  | Op_DeleteFile string
  | Op_RenameFile string string
  | Op_DeleteRecursively string

fun exec :: "world \<Rightarrow> op \<Rightarrow> world status" where
  "exec w (Op_NewWritableFile fname) = open_view w (NewWritableFile (w_env w) fname)"
| "exec w (Op_NewSequentialFile fname) = open_view w (NewSequentialFile (w_env w) fname)"
| "exec w (Op_NewRandomAccessFile fname) = open_view w (NewRandomAccessFile (w_env w) fname)"
| "exec w (Op_delete i) =
     on_view w i (\<lambda>h v. and_then (view_delete h v) (\<lambda>h'. OK (with_view (with_heap w h') i None)))"
| "exec w (Op_Append i data) =
     on_view w i (\<lambda>h v. and_then (WritableFile_Append h v data) (\<lambda>h'. OK (with_heap w h')))"
| "exec w (Op_AppendVector i data_vector) =
     on_view w i (\<lambda>h v. and_then (WritableFile_AppendVector h v data_vector)
                          (\<lambda>h'. OK (with_heap w h')))"
| "exec w (Op_PreAllocate i sz new_padding) =
     on_view w i (\<lambda>h v. and_then (WritableFile_PreAllocate h v sz new_padding)
                          (\<lambda>h'. OK (with_heap w h')))"
| "exec w (Op_Read i n scratch) =
     on_view w i (\<lambda>h v. and_then (SequentialFile_Read h v n scratch)
                          (\<lambda>(result, scratch', v'). OK (with_view w i (Some v'))))"
| "exec w (Op_Skip i n) =
     on_view w i (\<lambda>h v. and_then (SequentialFile_Skip h v n) (\<lambda>v'. OK (with_view w i (Some v'))))"
| "exec w (Op_RandomRead i offset n scratch) =
     on_view w i (\<lambda>h v. and_then (RandomAccessFile_Read h v offset n scratch) (\<lambda>r. OK w))"
| "exec w (Op_DeleteFile fname) =
     and_then (DeleteFile (w_env w) fname) (\<lambda>s. OK (w\<lparr>w_env := s\<rparr>))"
| "exec w (Op_RenameFile src target) =
     and_then (RenameFile (w_env w) src target) (\<lambda>s. OK (w\<lparr>w_env := s\<rparr>))"
| "exec w (Op_DeleteRecursively dirname) =
     and_then (DeleteRecursively (w_env w) dirname) (\<lambda>s. OK (w\<lparr>w_env := s\<rparr>))"

fun run :: "world \<Rightarrow> op list \<Rightarrow> world status" where
  "run w [] = OK w"
| "run w (x # xs) =
     (case exec w x of OK w' \<Rightarrow> run w' xs | IOError a b \<Rightarrow> run w xs | Fault \<Rightarrow> Fault)"

fun is_DeleteRecursively :: "op \<Rightarrow> bool" where
  "is_DeleteRecursively (Op_DeleteRecursively dirname) = True"
| "is_DeleteRecursively x = False"

subsection \<open>Who holds a reference\<close>

text \<open>
  The holders of a \<^verbatim>\<open>FileState\<close>: the entries of the map that point to it and the views
  that have not been deleted.  \<open>heap_inv leak hold h\<close> says how the heap accounts for
  them: an object is allocated with \<open>refs_ \<ge> 1\<close> equal to the number of its holders plus
  \<open>leak\<close>, the number of references nobody holds any more; an address with no object
  has no holder.  Every allocated file also satisfies \<open>capacity_ok\<close>.
\<close>

fun live_views :: "view option list \<Rightarrow> view list" where
  "live_views [] = []"
| "live_views (None # vs) = live_views vs"
| "live_views (Some v # vs) = v # live_views vs"

definition holders :: "world \<Rightarrow> ptr \<Rightarrow> nat" where
  "holders w p =
     count_list (map snd (m_file_map (w_env w))) p + count_list (map m_file (live_views (w_views w))) p"

definition heap_inv :: "(ptr \<Rightarrow> nat) \<Rightarrow> (ptr \<Rightarrow> nat) \<Rightarrow> heap \<Rightarrow> bool" where
  "heap_inv leak hold h =
     (\<forall>p. case deref h p of
             None \<Rightarrow> hold p = 0 \<and> leak p = 0
           | Some f \<Rightarrow> m_refs f = int (hold p) + int (leak p) \<and> 1 \<le> m_refs f \<and> capacity_ok f)"

fun cursor_ok :: "heap \<Rightarrow> view \<Rightarrow> bool" where
  "cursor_ok h (SequentialFileImpl file pos) =
     (case deref h file of None \<Rightarrow> True | Some f \<Rightarrow> pos \<le> m_size f)"
| "cursor_ok h v = True"

definition world_inv :: "(ptr \<Rightarrow> nat) \<Rightarrow> world \<Rightarrow> bool" where
  "world_inv leak w =
     (sorted_wrt (<) (map fst (m_file_map (w_env w))) \<and>
      distinct (map snd (m_file_map (w_env w))) \<and>
      heap_inv leak (holders w) (fs_heap (w_env w)) \<and>
      list_all (cursor_ok (fs_heap (w_env w))) (live_views (w_views w)))"

text \<open>What a step that only changes reference counts leaves of the heap.\<close>

definition refs_only :: "heap \<Rightarrow> heap \<Rightarrow> bool" where
  "refs_only h h' =
     (\<forall>q f'. deref h' q = Some f' \<longrightarrow>
        (\<exists>f. deref h q = Some f \<and> m_blocks f' = m_blocks f \<and> m_size f' = m_size f))"

section \<open>Properties of FileState\<close>

declare AppendRaw.simps [simp del] Read_loop.simps [simp del]

lemma kBlockSize_pos: "0 < kBlockSize"
  by (simp add: kBlockSize_def)

lemma AppendRaw_unfold:
  "AppendRaw f src =
     (if src = [] then OK f
      else if append_blocks f = [] then Fault
      else AppendRaw (append_step f src) (drop (append_avail f src) src))"
  by (subst AppendRaw.simps) (simp add: append_blocks_def append_avail_def append_step_def Let_def)

lemma append_avail_pos: "src \<noteq> [] \<Longrightarrow> 0 < append_avail f src"
  using kBlockSize_pos by (auto simp: append_avail_def Let_def)

lemma append_avail_le: "append_avail f src \<le> length src"
  by (auto simp: append_avail_def Let_def)

lemma append_avail_room: "m_size f mod kBlockSize + append_avail f src \<le> kBlockSize"
  using kBlockSize_pos by (auto simp: append_avail_def Let_def)

lemma div_lt_of_capacity:
  assumes "capacity_ok f" "m_size f mod kBlockSize \<noteq> 0"
  shows "m_size f div kBlockSize < length (m_blocks f)"
proof -
  have "m_size f \<noteq> length (m_blocks f) * kBlockSize"
    using assms(2) by auto
  with assms(1) have "m_size f < length (m_blocks f) * kBlockSize"
    by (simp add: capacity_ok_def)
  then show ?thesis
    using kBlockSize_pos by (simp add: div_less_iff_less_mult)
qed

lemma append_blocks_nonempty:
  assumes "capacity_ok f"
  shows "append_blocks f \<noteq> []"
  using div_lt_of_capacity [OF assms] by (auto simp: append_blocks_def)

lemma m_size_append_step [simp]: "m_size (append_step f src) = m_size f + append_avail f src"
  by (simp add: append_step_def)

lemma m_refs_append_step [simp]: "m_refs (append_step f src) = m_refs f"
  by (simp add: append_step_def)

lemma length_append_step:
  "length (m_blocks (append_step f src)) = length (append_blocks f)"
  by (simp add: append_step_def)

lemma length_append_blocks:
  "length (append_blocks f) = (if m_size f mod kBlockSize \<noteq> 0 then length (m_blocks f) else length (m_blocks f) + 1)"
  by (simp add: append_blocks_def)

lemma capacity_append_step:
  assumes "capacity_ok f"
  shows "capacity_ok (append_step f src)"
proof (cases "m_size f mod kBlockSize = 0")
  case True
  have "append_avail f src \<le> kBlockSize"
    using append_avail_room [of f src] by simp
  with assms True show ?thesis
    by (simp add: capacity_ok_def length_append_step length_append_blocks)
next
  case False
  let ?q = "m_size f div kBlockSize"
  have q: "?q + 1 \<le> length (m_blocks f)"
    using div_lt_of_capacity [OF assms False] by simp
  have "m_size f + append_avail f src \<le> ?q * kBlockSize + kBlockSize"
    using append_avail_room [of f src] div_mult_mod_eq [of "m_size f" kBlockSize] by linarith
  also have "\<dots> = (?q + 1) * kBlockSize" by simp
  also have "\<dots> \<le> length (m_blocks f) * kBlockSize"
    using q by (rule mult_le_mono1)
  finally show ?thesis
    using False by (simp add: capacity_ok_def length_append_step length_append_blocks)
qed

lemma cell_at_append_step_old:
  assumes "capacity_ok f" "i < m_size f"
  shows "cell_at (append_step f src) i = cell_at f i"
proof (cases "m_size f mod kBlockSize = 0")
  case True
  have "i < length (m_blocks f) * kBlockSize"
    using assms by (simp add: capacity_ok_def)
  then have "i div kBlockSize < length (m_blocks f)"
    using kBlockSize_pos by (simp add: div_less_iff_less_mult)
  with True show ?thesis
    by (simp add: cell_at_def cells_at_def append_step_def append_blocks_def nth_append)
next
  case False
  have q: "m_size f div kBlockSize < length (m_blocks f)"
    by (rule div_lt_of_capacity [OF assms(1) False])
  have le: "i div kBlockSize \<le> m_size f div kBlockSize"
    using assms(2) by (simp add: div_le_mono)
  show ?thesis
  proof (cases "i div kBlockSize = length (m_blocks f) - 1")
    case same: True
    with q le have eq: "i div kBlockSize = m_size f div kBlockSize" by linarith
    have "i mod kBlockSize < m_size f mod kBlockSize"
      using assms(2) eq div_mult_mod_eq [of i kBlockSize] div_mult_mod_eq [of "m_size f" kBlockSize]
      by (metis add_less_cancel_left)
    moreover have "m_blocks f \<noteq> []"
      using q by auto
    ultimately show ?thesis
      using False same
      by (simp add: cell_at_def cells_at_def append_step_def append_blocks_def memcpy_block_def
          last_conv_nth)
  next
    case other: False
    with False show ?thesis
      by (simp add: cell_at_def cells_at_def append_step_def append_blocks_def)
  qed
qed

lemma size_full_of_tail_used:
  assumes "capacity_ok f" "tail_used f" "m_size f mod kBlockSize = 0"
  shows "m_size f = length (m_blocks f) * kBlockSize"
proof (cases "m_blocks f = []")
  case True
  with assms(1) show ?thesis by (simp add: capacity_ok_def)
next
  case False
  with assms(2) have lt: "(length (m_blocks f) - 1) * kBlockSize < m_size f"
    by (simp add: tail_used_def)
  obtain k where k: "m_size f = k * kBlockSize"
    using assms(3) div_mult_mod_eq [of "m_size f" kBlockSize] by (metis add.right_neutral)
  from lt k have "length (m_blocks f) - 1 < k"
    using kBlockSize_pos by simp
  moreover from assms(1) k have "k \<le> length (m_blocks f)"
    using kBlockSize_pos by (simp add: capacity_ok_def)
  ultimately have "k = length (m_blocks f)" by linarith
  with k show ?thesis by simp
qed

lemma size_div_of_tail_used:
  assumes "capacity_ok f" "tail_used f" "m_size f mod kBlockSize \<noteq> 0"
  shows "m_size f div kBlockSize = length (m_blocks f) - 1"
proof -
  have q: "m_size f div kBlockSize < length (m_blocks f)"
    by (rule div_lt_of_capacity [OF assms(1,3)])
  then have "m_blocks f \<noteq> []" by auto
  with assms(2) have "(length (m_blocks f) - 1) * kBlockSize < m_size f"
    by (simp add: tail_used_def)
  then have "length (m_blocks f) - 1 \<le> m_size f div kBlockSize"
    using kBlockSize_pos by (simp add: less_eq_div_iff_mult_less_eq)
  with q show ?thesis by linarith
qed

lemma tail_used_append_step:
  assumes "capacity_ok f" "tail_used f" "src \<noteq> []"
  shows "tail_used (append_step f src)"
proof (cases "m_size f mod kBlockSize = 0")
  case True
  have "m_size f = length (m_blocks f) * kBlockSize"
    by (rule size_full_of_tail_used [OF assms(1,2) True])
  with True append_avail_pos [OF assms(3), of f] show ?thesis
    by (simp add: tail_used_def length_append_step length_append_blocks)
next
  case False
  have "m_blocks f \<noteq> []"
    using div_lt_of_capacity [OF assms(1) False] by auto
  with assms(2) False show ?thesis
    by (simp add: tail_used_def length_append_step length_append_blocks)
qed

lemma div_mod_block:
  fixes q r B :: nat
  assumes "r < B"
  shows "(q * B + r) div B = q" and "(q * B + r) mod B = r"
  using assms by simp_all

lemma add_within_block:
  fixes s j B :: nat
  assumes "s mod B + j < B"
  shows "(s + j) div B = s div B" and "(s + j) mod B = s mod B + j"
proof -
  have eq: "s + j = s div B * B + (s mod B + j)"
    using div_mult_mod_eq [of s B] by linarith
  show "(s + j) div B = s div B"
    by (subst eq) (rule div_mod_block(1) [OF assms])
  show "(s + j) mod B = s mod B + j"
    by (subst eq) (rule div_mod_block(2) [OF assms])
qed

lemma cell_at_append_step_new:
  assumes "capacity_ok f" "tail_used f" "j < append_avail f src"
  shows "cell_at (append_step f src) (m_size f + j) = src ! j"
proof -
  let ?o = "m_size f mod kBlockSize"
  let ?L = "length (m_blocks f)"
  have room: "?o + j < kBlockSize"
    using append_avail_room [of f src] assms(3) by linarith
  have dv: "(m_size f + j) div kBlockSize = m_size f div kBlockSize"
    by (rule add_within_block(1) [OF room])
  have md: "(m_size f + j) mod kBlockSize = ?o + j"
    by (rule add_within_block(2) [OF room])
  show ?thesis
  proof (cases "?o = 0")
    case True
    have "m_size f = ?L * kBlockSize"
      by (rule size_full_of_tail_used [OF assms(1,2) True])
    then have "m_size f div kBlockSize = ?L"
      using kBlockSize_pos by simp
    with True assms(3) show ?thesis
      by (simp add: cell_at_def cells_at_def dv md append_step_def append_blocks_def
          memcpy_block_def)
  next
    case False
    have q: "m_size f div kBlockSize = ?L - 1"
      by (rule size_div_of_tail_used [OF assms(1,2) False])
    have "m_blocks f \<noteq> []"
      using div_lt_of_capacity [OF assms(1) False] by auto
    with False q assms(3) show ?thesis
      by (simp add: cell_at_def cells_at_def dv md append_step_def append_blocks_def
          memcpy_block_def)
  qed
qed

lemma length_blocks_append_step: "length (m_blocks f) \<le> length (m_blocks (append_step f src))"
  by (simp add: length_append_step length_append_blocks)

lemma AppendRaw_correct:
  assumes "capacity_ok f"
  shows "\<exists>f'. AppendRaw f src = OK f' \<and> capacity_ok f' \<and>
           m_size f' = m_size f + length src \<and> m_refs f' = m_refs f \<and>
           length (m_blocks f) \<le> length (m_blocks f') \<and>
           (\<forall>i<m_size f. cell_at f' i = cell_at f i) \<and>
           (tail_used f \<longrightarrow> tail_used f' \<and> (\<forall>j<length src. cell_at f' (m_size f + j) = src ! j))"
  using assms
proof (induction "length src" arbitrary: f src rule: less_induct)
  case less
  show ?case
  proof (cases "src = []")
    case True
    with less.prems show ?thesis by (simp add: AppendRaw_unfold)
  next
    case False
    let ?a = "append_avail f src"
    let ?f1 = "append_step f src"
    let ?src1 = "drop ?a src"
    have a_pos: "0 < ?a" by (rule append_avail_pos [OF False])
    have a_le: "?a \<le> length src" by (rule append_avail_le)
    have shorter: "length ?src1 < length src"
      using a_pos False by simp
    have cap1: "capacity_ok ?f1" by (rule capacity_append_step [OF less.prems])
    from less.hyps [OF shorter cap1] obtain f' where
      run: "AppendRaw ?f1 ?src1 = OK f'" and cap': "capacity_ok f'" and
      size': "m_size f' = m_size ?f1 + length ?src1" and refs': "m_refs f' = m_refs ?f1" and
      len': "length (m_blocks ?f1) \<le> length (m_blocks f')" and
      old': "\<forall>i<m_size ?f1. cell_at f' i = cell_at ?f1 i" and
      new': "tail_used ?f1 \<longrightarrow> tail_used f' \<and> (\<forall>j<length ?src1. cell_at f' (m_size ?f1 + j) = ?src1 ! j)"
      by blast
    have eq: "AppendRaw f src = OK f'"
      using False append_blocks_nonempty [OF less.prems] run by (subst AppendRaw_unfold) simp
    have sz: "m_size f' = m_size f + length src"
      using size' a_le by simp
    have len: "length (m_blocks f) \<le> length (m_blocks f')"
      using len' length_blocks_append_step [of f src] by linarith
    have old: "\<forall>i<m_size f. cell_at f' i = cell_at f i"
    proof (intro allI impI)
      fix i assume i: "i < m_size f"
      then have "cell_at f' i = cell_at ?f1 i" using old' by simp
      also have "\<dots> = cell_at f i" by (rule cell_at_append_step_old [OF less.prems i])
      finally show "cell_at f' i = cell_at f i" .
    qed
    have new: "tail_used f' \<and> (\<forall>j<length src. cell_at f' (m_size f + j) = src ! j)"
      if tu: "tail_used f"
    proof -
      have tu1: "tail_used ?f1" by (rule tail_used_append_step [OF less.prems tu False])
      with new' have tu': "tail_used f'" and
        rest: "\<forall>j<length ?src1. cell_at f' (m_size ?f1 + j) = ?src1 ! j" by simp_all
      have "cell_at f' (m_size f + j) = src ! j" if j: "j < length src" for j
      proof (cases "j < ?a")
        case True
        then have "cell_at f' (m_size f + j) = cell_at ?f1 (m_size f + j)" using old' by simp
        also have "\<dots> = src ! j" by (rule cell_at_append_step_new [OF less.prems tu True])
        finally show ?thesis .
      next
        case False
        then have "j - ?a < length ?src1" using j by simp
        with rest have "cell_at f' (m_size ?f1 + (j - ?a)) = ?src1 ! (j - ?a)" by blast
        moreover have "m_size ?f1 + (j - ?a) = m_size f + j" using False by simp
        moreover have "?src1 ! (j - ?a) = src ! j" using False a_le by simp
        ultimately show ?thesis by simp
      qed
      with tu' show ?thesis by blast
    qed
    from eq cap' sz refs' len old new show ?thesis by simp
  qed
qed

lemma block_of_offset:
  fixes block block_offset j :: nat
  assumes "block_offset + j < kBlockSize"
  shows "cells_at bs (block * kBlockSize + block_offset + j) = (bs ! block) (block_offset + j)"
  using div_mod_block [OF assms, of block] by (simp add: cells_at_def add.assoc)

lemma length_memcpy_buffer:
  "dst + length cells \<le> length scratch \<Longrightarrow> length (memcpy_buffer scratch dst cells) = length scratch"
  by (simp add: memcpy_buffer_def)

lemma take_memcpy_buffer:
  "dst \<le> length scratch \<Longrightarrow> take dst (memcpy_buffer scratch dst cells) = take dst scratch"
  by (simp add: memcpy_buffer_def)

lemma nth_memcpy_buffer:
  "dst \<le> length scratch \<Longrightarrow> j < length cells \<Longrightarrow> memcpy_buffer scratch dst cells ! (dst + j) = cells ! j"
  by (simp add: memcpy_buffer_def nth_append)

lemma length_block_cells [simp]: "length (block_cells b off n) = n"
  by (simp add: block_cells_def)

lemma nth_block_cells [simp]: "j < n \<Longrightarrow> block_cells b off n ! j = b (off + j)"
  by (simp add: block_cells_def)

lemma Read_loop_unfold:
  "Read_loop bs block block_offset k dst scratch =
     (if k = 0 then OK scratch
      else if length bs \<le> block then Fault
      else if length scratch < dst + min (kBlockSize - block_offset) k then Fault
      else Read_loop bs (block + 1) 0 (k - min (kBlockSize - block_offset) k)
             (dst + min (kBlockSize - block_offset) k)
             (memcpy_buffer scratch dst
                (block_cells (bs ! block) block_offset (min (kBlockSize - block_offset) k))))"
proof -
  have m: "(if k < kBlockSize - block_offset then k else kBlockSize - block_offset)
            = min (kBlockSize - block_offset) k"
    by (simp add: min_def)
  show ?thesis
    by (subst Read_loop.simps) (simp add: Let_def m)
qed

lemma Read_loop_correct:
  assumes "block_offset < kBlockSize"
    and "block * kBlockSize + block_offset + k \<le> length bs * kBlockSize"
    and "dst + k \<le> length scratch"
  shows "\<exists>s'. Read_loop bs block block_offset k dst scratch = OK s' \<and>
           length s' = length scratch \<and> take dst s' = take dst scratch \<and>
           (\<forall>j<k. s' ! (dst + j) = cells_at bs (block * kBlockSize + block_offset + j))"
  using assms
proof (induction k arbitrary: block block_offset dst scratch rule: less_induct)
  case (less k)
  show ?case
  proof (cases "k = 0")
    case True
    then show ?thesis by (simp add: Read_loop_unfold)
  next
    case False
    let ?a = "min (kBlockSize - block_offset) k"
    let ?cells = "block_cells (bs ! block) block_offset ?a"
    let ?s1 = "memcpy_buffer scratch dst ?cells"
    have a_pos: "0 < ?a" using False less.prems(1) by simp
    have a_le: "?a \<le> k" by simp
    have a_room: "block_offset + ?a \<le> kBlockSize" using less.prems(1) by simp
    have blk: "block < length bs"
    proof (rule ccontr)
      assume "\<not> block < length bs"
      then have "length bs * kBlockSize \<le> block * kBlockSize" by simp
      with less.prems(2) False show False by simp
    qed
    have fits: "dst + ?a \<le> length scratch" using less.prems(3) a_le by linarith
    have len1: "length ?s1 = length scratch"
      using fits by (simp add: length_memcpy_buffer)
    have next_ok: "(block + 1) * kBlockSize + 0 + (k - ?a) \<le> length bs * kBlockSize"
    proof (cases "k \<le> kBlockSize - block_offset")
      case True
      then have "k - ?a = 0" by simp
      moreover have "(block + 1) * kBlockSize \<le> length bs * kBlockSize"
        using blk by (intro mult_le_mono1) simp
      ultimately show ?thesis by simp
    next
      case False
      then have "?a = kBlockSize - block_offset" by simp
      then have "(block + 1) * kBlockSize + 0 + (k - ?a) = block * kBlockSize + block_offset + k"
        using False less.prems(1) by simp
      with less.prems(2) show ?thesis by simp
    qed
    have "k - ?a < k" using a_pos False by simp
    from less.IH [OF this kBlockSize_pos next_ok, of "dst + ?a" ?s1] obtain s' where
      run: "Read_loop bs (block + 1) 0 (k - ?a) (dst + ?a) ?s1 = OK s'" and
      len': "length s' = length ?s1" and
      keep: "take (dst + ?a) s' = take (dst + ?a) ?s1" and
      rest: "\<forall>j<k - ?a. s' ! (dst + ?a + j) = cells_at bs ((block + 1) * kBlockSize + 0 + j)"
      using less.prems(3) len1 a_le by auto
    have eq: "Read_loop bs block block_offset k dst scratch = OK s'"
      using False blk fits run by (subst Read_loop_unfold) simp
    have "take dst s' = take dst (take (dst + ?a) s')" by (simp add: min_def)
    also have "\<dots> = take dst (take (dst + ?a) ?s1)" by (simp only: keep)
    also have "\<dots> = take dst ?s1" by (simp add: min_def)
    also have "\<dots> = take dst scratch"
      using fits by (simp add: take_memcpy_buffer)
    finally have front: "take dst s' = take dst scratch" .
    have cellsj: "s' ! (dst + j) = cells_at bs (block * kBlockSize + block_offset + j)"
      if j: "j < k" for j
    proof (cases "j < ?a")
      case True
      have "s' ! (dst + j) = take (dst + ?a) s' ! (dst + j)" using True by simp
      also have "\<dots> = take (dst + ?a) ?s1 ! (dst + j)" by (simp only: keep)
      also have "\<dots> = ?s1 ! (dst + j)" using True by simp
      also have "\<dots> = ?cells ! j"
        using fits True by (simp add: nth_memcpy_buffer)
      also have "\<dots> = (bs ! block) (block_offset + j)" using True by simp
      also have "\<dots> = cells_at bs (block * kBlockSize + block_offset + j)"
      proof -
        have "block_offset + j < kBlockSize" using True a_room by linarith
        then show ?thesis by (rule block_of_offset [symmetric])
      qed
      finally show ?thesis .
    next
      case False
      then have aj: "?a \<le> j" by (simp only: not_less)
      have a: "?a = kBlockSize - block_offset"
        using aj j by (simp add: min_def split: if_splits)
      have ja: "j - ?a < k - ?a"
        using aj j by linarith
      from rest ja have r: "s' ! (dst + ?a + (j - ?a)) = cells_at bs ((block + 1) * kBlockSize + 0 + (j - ?a))"
        by blast
      have e1: "dst + ?a + (j - ?a) = dst + j" using aj by linarith
      have e2: "(block + 1) * kBlockSize + 0 + (j - ?a) = block * kBlockSize + block_offset + j"
        using aj less.prems(1) unfolding a by simp
      show ?thesis using r unfolding e1 e2 .
    qed
    from eq len' len1 front cellsj show ?thesis by simp
  qed
qed

lemma cell_at_within_block:
  assumes "offset mod kBlockSize + j < kBlockSize"
  shows "cell_at f (offset + j) = (m_blocks f ! (offset div kBlockSize)) (offset mod kBlockSize + j)"
  using add_within_block [OF assms] by (simp add: cell_at_def cells_at_def)

lemma Read_correct:
  assumes cap: "capacity_ok f" and off: "offset \<le> m_size f"
    and room: "min n (m_size f - offset) \<le> kBlockSize - offset mod kBlockSize \<or>
               min n (m_size f - offset) \<le> length scratch"
  shows "\<exists>result scratch'. Read f offset n scratch = OK (result, scratch') \<and>
           result = (if min n (m_size f - offset) = 0 then Slice_empty
                     else if min n (m_size f - offset) \<le> kBlockSize - offset mod kBlockSize
                     then Slice_block (offset div kBlockSize) (offset mod kBlockSize)
                            (min n (m_size f - offset))
                     else Slice_scratch (min n (m_size f - offset))) \<and>
           length scratch' = length scratch \<and>
           slice_cells f scratch' result =
             map (cell_at f) [offset..<offset + min n (m_size f - offset)]"
proof -
  let ?n = "min n (m_size f - offset)"
  let ?o = "offset mod kBlockSize"
  let ?b = "offset div kBlockSize"
  have clamp: "(if m_size f - offset < n then m_size f - offset else n) = ?n"
    by (simp add: min_def)
  have unfold: "Read f offset n scratch =
      (if ?n = 0 then OK (Slice_empty, scratch)
       else if ?n \<le> kBlockSize - ?o then
         (if length (m_blocks f) \<le> ?b then Fault else OK (Slice_block ?b ?o ?n, scratch))
       else and_then (Read_loop (m_blocks f) ?b ?o ?n 0 scratch) (\<lambda>scratch'. OK (Slice_scratch ?n, scratch')))"
    using off unfolding Read_def Let_def clamp by simp
  consider (empty) "?n = 0" | (single) "0 < ?n" "?n \<le> kBlockSize - ?o"
    | (multi) "kBlockSize - ?o < ?n"
    by linarith
  then show ?thesis
  proof cases
    case empty
    then show ?thesis unfolding unfold by simp
  next
    case single
    have "offset < m_size f" using single(1) by simp
    with cap have "offset < length (m_blocks f) * kBlockSize" by (simp add: capacity_ok_def)
    then have blk: "?b < length (m_blocks f)"
      using kBlockSize_pos by (simp add: div_less_iff_less_mult)
    have "block_cells (m_blocks f ! ?b) ?o ?n = map (cell_at f) [offset..<offset + ?n]"
    proof (rule nth_equalityI)
      show "length (block_cells (m_blocks f ! ?b) ?o ?n) = length (map (cell_at f) [offset..<offset + ?n])"
        by simp
    next
      fix j assume "j < length (block_cells (m_blocks f ! ?b) ?o ?n)"
      then have j: "j < ?n" by simp
      then have "?o + j < kBlockSize" using single(2) by linarith
      then have "cell_at f (offset + j) = (m_blocks f ! ?b) (?o + j)"
        by (rule cell_at_within_block)
      with j show "block_cells (m_blocks f ! ?b) ?o ?n ! j = map (cell_at f) [offset..<offset + ?n] ! j"
        by simp
    qed
    with single blk show ?thesis unfolding unfold by simp
  next
    case multi
    have o: "?o < kBlockSize" using kBlockSize_pos by simp
    have "?b * kBlockSize + ?o + ?n = offset + ?n"
      using div_mult_mod_eq [of offset kBlockSize] by simp
    also have "\<dots> \<le> m_size f" using off by simp
    also have "\<dots> \<le> length (m_blocks f) * kBlockSize" using cap by (simp add: capacity_ok_def)
    finally have span: "?b * kBlockSize + ?o + ?n \<le> length (m_blocks f) * kBlockSize" .
    have fits: "0 + ?n \<le> length scratch" using room multi by linarith
    from Read_loop_correct [OF o span fits] obtain s' where
      run: "Read_loop (m_blocks f) ?b ?o ?n 0 scratch = OK s'" and
      len: "length s' = length scratch" and
      cells: "\<forall>j<?n. s' ! (0 + j) = cells_at (m_blocks f) (?b * kBlockSize + ?o + j)"
      by blast
    have "take ?n s' = map (cell_at f) [offset..<offset + ?n]"
    proof (rule nth_equalityI)
      show "length (take ?n s') = length (map (cell_at f) [offset..<offset + ?n])"
        using len fits by simp
    next
      fix j assume "j < length (take ?n s')"
      then have j: "j < ?n" by simp
      with cells have "s' ! j = cells_at (m_blocks f) (?b * kBlockSize + ?o + j)" by simp
      also have "?b * kBlockSize + ?o + j = offset + j"
        using div_mult_mod_eq [of offset kBlockSize] by simp
      finally show "take ?n s' ! j = map (cell_at f) [offset..<offset + ?n] ! j"
        using j by (simp add: cell_at_def)
    qed
    moreover have ne: "?n \<noteq> 0" "\<not> ?n \<le> kBlockSize - ?o"
      using multi by linarith+
    moreover have "Read f offset n scratch = OK (Slice_scratch ?n, s')"
      unfolding unfold if_not_P [OF ne(1)] if_not_P [OF ne(2)] run and_then_def by simp
    ultimately show ?thesis
      using len by (simp only: if_False slice_cells.simps) simp
  qed
qed

lemma Appends_correct:
  assumes "capacity_ok f" "tail_used f"
  shows "\<exists>f'. Appends f ds = OK f' \<and> capacity_ok f' \<and> tail_used f' \<and>
           m_size f' = m_size f + length (concat ds) \<and> m_refs f' = m_refs f \<and>
           (\<forall>i<m_size f. cell_at f' i = cell_at f i) \<and>
           (\<forall>j<length (concat ds). cell_at f' (m_size f + j) = Some (concat ds ! j))"
  using assms
proof (induction ds arbitrary: f)
  case Nil
  then show ?case by simp
next
  case (Cons d ds)
  from AppendRaw_correct [OF Cons.prems(1), of "map Some d"] Cons.prems(2) obtain f1 where
    a: "Append f d = OK f1" and cap1: "capacity_ok f1" and tu1: "tail_used f1" and
    sz1: "m_size f1 = m_size f + length d" and refs1: "m_refs f1 = m_refs f" and
    old1: "\<forall>i<m_size f. cell_at f1 i = cell_at f i" and
    new1: "\<forall>j<length d. cell_at f1 (m_size f + j) = Some (d ! j)"
    by (auto simp: Append_def)
  from Cons.IH [OF cap1 tu1] obtain f' where
    r: "Appends f1 ds = OK f'" and cap': "capacity_ok f'" and tu': "tail_used f'" and
    sz': "m_size f' = m_size f1 + length (concat ds)" and refs': "m_refs f' = m_refs f1" and
    old': "\<forall>i<m_size f1. cell_at f' i = cell_at f1 i" and
    new': "\<forall>j<length (concat ds). cell_at f' (m_size f1 + j) = Some (concat ds ! j)"
    by blast
  have run: "Appends f (d # ds) = OK f'"
    using a r by (simp add: and_then_def)
  have old: "\<forall>i<m_size f. cell_at f' i = cell_at f i"
    using old' old1 sz1 by simp
  have new: "cell_at f' (m_size f + j) = Some (concat (d # ds) ! j)"
    if j: "j < length (concat (d # ds))" for j
  proof (cases "j < length d")
    case True
    then have "cell_at f' (m_size f + j) = cell_at f1 (m_size f + j)"
      using old' sz1 by simp
    with new1 True show ?thesis by (simp add: nth_append)
  next
    case False
    then have "j - length d < length (concat ds)" using j by simp
    with new' have "cell_at f' (m_size f1 + (j - length d)) = Some (concat ds ! (j - length d))"
      by blast
    moreover have "m_size f1 + (j - length d) = m_size f + j" using False sz1 by simp
    ultimately show ?thesis using False by (simp add: nth_append)
  qed
  from run cap' tu' sz' sz1 refs' refs1 old new show ?case by simp
qed

lemma capacity_ok_new: "capacity_ok FileState_new"
  by (simp add: capacity_ok_def FileState_new_def)

lemma tail_used_new: "tail_used FileState_new"
  by (simp add: tail_used_def FileState_new_def)

text \<open>
  \<^verbatim>\<open>AppendRaw\<close> has no error return, so neither have \<^verbatim>\<open>Append\<close> and \<^verbatim>\<open>PreAllocate\<close>: the only
  calls that return an error status are those that test for it before they change
  anything.  \<^verbatim>\<open>PreAllocate\<close> returns at all only when the allocator hands it an address
  that is a multiple of 256.
\<close>

lemma AppendRaw_no_IOError: "AppendRaw f src \<noteq> IOError a b"
proof (induction f src rule: AppendRaw.induct)
  case (1 f src)
  then show ?case
    by (subst AppendRaw.simps) (simp add: Let_def)
qed

lemma Append_no_IOError: "Append f d \<noteq> IOError a b"
  by (simp add: Append_def AppendRaw_no_IOError)

lemma PreAllocate_no_IOError: "PreAllocate f sz p \<noteq> IOError a b"
  using AppendRaw_no_IOError [of f "replicate sz None"]
  by (cases "AppendRaw f (replicate sz None)") (simp_all add: PreAllocate_def and_then_def Let_def)

lemma memset_first_byte_fixed: "memset_first_byte p = p \<longleftrightarrow> unat p mod 256 = 0"
proof -
  have id: "push_bit 8 (drop_bit 8 p) + take_bit 8 p = p"
    by (rule bits_ident)
  have "memset_first_byte p = p \<longleftrightarrow> take_bit 8 p = 0"
  proof
    assume "memset_first_byte p = p"
    with id have "p + take_bit 8 p = p" by (simp add: memset_first_byte_def)
    then show "take_bit 8 p = 0" by simp
  next
    assume "take_bit 8 p = 0"
    with id show "memset_first_byte p = p" by (simp add: memset_first_byte_def)
  qed
  also have "\<dots> \<longleftrightarrow> unat (take_bit 8 p) = 0"
    by (simp add: unat_eq_0)
  also have "\<dots> \<longleftrightarrow> unat p mod 256 = 0"
    by (simp add: unsigned_take_bit_eq take_bit_eq_mod unat_mod_distrib)
  finally show ?thesis .
qed

lemma PreAllocate_unaligned: "memset_first_byte p \<noteq> p \<Longrightarrow> PreAllocate f sz p = Fault"
  by (simp add: PreAllocate_def Let_def)

lemma PreAllocate_aligned:
  "memset_first_byte p = p \<Longrightarrow>
   PreAllocate f sz p =
     and_then (AppendRaw f (replicate sz None)) (\<lambda>f'. OK (f'\<lparr>m_size := m_size f' - sz\<rparr>))"
  by (simp add: PreAllocate_def Let_def)

lemma PreAllocate_OK_aligned: "PreAllocate f sz p = OK f' \<Longrightarrow> memset_first_byte p = p"
  by (cases "memset_first_byte p = p") (simp_all add: PreAllocate_unaligned)

subsection \<open>Reading back what was appended\<close>

text \<open>
  Claim C1.  Take the file built from the empty \<^verbatim>\<open>FileState\<close> by appending the byte strings
  \<open>ds\<close> in order, an offset not beyond its size and any \<open>n\<close>.  \<^verbatim>\<open>Read(offset, n, result,
  scratch)\<close> returns \<^verbatim>\<open>OK\<close>, and the slice it returns holds exactly \<open>min n (size - offset)\<close>
  bytes: the bytes appended at positions \<open>offset, offset + 1, ...\<close>, whether or not the
  range crosses a block boundary.  A range that ends inside the block where it starts
  is returned as a view into that block and leaves scratch alone; a longer range is
  copied into scratch, which the caller must have made at least as long as the range
  (the second hypothesis: the source copies without asking for the buffer's length).
\<close>

theorem read_returns_appended_bytes:
  assumes "offset \<le> length (concat ds)"
    and "min n (length (concat ds) - offset) \<le> kBlockSize - offset mod kBlockSize \<or>
         min n (length (concat ds) - offset) \<le> length scratch"
  shows "\<exists>f result scratch'.
           Appends FileState_new ds = OK f \<and> m_size f = length (concat ds) \<and>
           Read f offset n scratch = OK (result, scratch') \<and>
           slice_size result = min n (m_size f - offset) \<and>
           slice_cells f scratch' result = map Some (take n (drop offset (concat ds))) \<and>
           result = (if min n (m_size f - offset) = 0 then Slice_empty
                     else if min n (m_size f - offset) \<le> kBlockSize - offset mod kBlockSize
                     then Slice_block (offset div kBlockSize) (offset mod kBlockSize)
                            (min n (m_size f - offset))
                     else Slice_scratch (min n (m_size f - offset)))"
proof -
  let ?data = "concat ds"
  from Appends_correct [OF capacity_ok_new tail_used_new, of ds] obtain f where
    run: "Appends FileState_new ds = OK f" and cap: "capacity_ok f" and
    sz: "m_size f = length ?data" and
    cells: "\<forall>j<length ?data. cell_at f j = Some (?data ! j)"
    by (auto simp: FileState_new_def)
  let ?n = "min n (m_size f - offset)"
  from Read_correct [OF cap, of offset n scratch] assms sz obtain result scratch' where
    rd: "Read f offset n scratch = OK (result, scratch')" and
    kind: "result = (if ?n = 0 then Slice_empty
                     else if ?n \<le> kBlockSize - offset mod kBlockSize
                     then Slice_block (offset div kBlockSize) (offset mod kBlockSize) ?n
                     else Slice_scratch ?n)" and
    got: "slice_cells f scratch' result = map (cell_at f) [offset..<offset + ?n]"
    by auto
  have "map (cell_at f) [offset..<offset + ?n] = map Some (take n (drop offset ?data))"
  proof (rule nth_equalityI)
    show "length (map (cell_at f) [offset..<offset + ?n]) = length (map Some (take n (drop offset ?data)))"
      using sz by (simp add: min.commute)
  next
    fix j assume "j < length (map (cell_at f) [offset..<offset + ?n])"
    then have j: "j < n" "j < length ?data - offset" using sz by simp_all
    then have "cell_at f (offset + j) = Some (?data ! (offset + j))" using cells by simp
    with j show "map (cell_at f) [offset..<offset + ?n] ! j = map Some (take n (drop offset ?data)) ! j"
      using sz assms(1) by simp
  qed
  with got have bytes: "slice_cells f scratch' result = map Some (take n (drop offset ?data))"
    by simp
  have "slice_size result = ?n"
    unfolding kind by simp
  with run sz rd bytes kind show ?thesis by blast
qed

theorem read_returns_appended_bytes_witness:
  "(8189::nat) \<le> length (concat [replicate 8190 (1::byte), [2, 3, 4, 5]]) \<and>
   (\<exists>f result scratch'.
      Appends FileState_new [replicate 8190 1, [2, 3, 4, 5]] = OK f \<and>
      m_size f = 8194 \<and>
      Read f 8189 4 (replicate 4 None) = OK (result, scratch') \<and>
      slice_size result = 4 \<and>
      slice_cells f scratch' result = [Some 1, Some 2, Some 3, Some 4] \<and>
      result = Slice_scratch 4)"
proof -
  let ?ds = "[replicate 8190 (1::byte), [2, 3, 4, 5]]"
  have h1: "(8189::nat) \<le> length (concat ?ds)" by simp
  have h2: "min 4 (length (concat ?ds) - 8189) \<le> kBlockSize - 8189 mod kBlockSize \<or>
            min 4 (length (concat ?ds) - 8189) \<le> length (replicate 4 (None::cell))"
    by simp
  from read_returns_appended_bytes [OF h1 h2] obtain f result scratch' where
    run: "Appends FileState_new ?ds = OK f" and sz: "m_size f = length (concat ?ds)" and
    rd: "Read f 8189 4 (replicate 4 None) = OK (result, scratch')" and
    n: "slice_size result = min 4 (m_size f - 8189)" and
    cells: "slice_cells f scratch' result = map Some (take 4 (drop 8189 (concat ?ds)))" and
    kind: "result = (if min 4 (m_size f - 8189) = 0 then Slice_empty
                     else if min 4 (m_size f - 8189) \<le> kBlockSize - 8189 mod kBlockSize
                     then Slice_block (8189 div kBlockSize) (8189 mod kBlockSize)
                            (min 4 (m_size f - 8189))
                     else Slice_scratch (min 4 (m_size f - 8189)))"
    by blast
  have sz': "m_size f = 8194" using sz by simp
  have data: "take 4 (drop 8189 (concat ?ds)) = [1, 2, 3, 4]"
    by (simp add: replicate_append_same [symmetric])
  have "result = Slice_scratch 4" using kind by (simp add: sz' kBlockSize_def)
  moreover have "slice_size result = 4" using n by (simp add: sz')
  moreover have "slice_cells f scratch' result = [Some 1, Some 2, Some 3, Some 4]"
    using cells by (simp add: data)
  ultimately show ?thesis using h1 run sz' rd by blast
qed

subsection \<open>Reading at and beyond the end\<close>

text \<open>
  Claim C2.  For every file and every \<open>n\<close>, a read at \<open>offset = size\<close> returns \<^verbatim>\<open>OK\<close> with
  the empty slice, and a read at an offset beyond the size returns the \<^verbatim>\<open>IOError\<close> status
  "Offset greater than file size.".  \<^verbatim>\<open>Read\<close> is a \<^verbatim>\<open>const\<close> member: it returns no new file
  state, and neither of the two cases writes to scratch.
\<close>

theorem read_boundary:
  "Read f (m_size f) n scratch = OK (Slice_empty, scratch) \<and>
   (m_size f < offset \<longrightarrow> Read f offset n scratch = IOError ''Offset greater than file size.'' '''')"
  by (simp add: Read_def)

theorem read_boundary_witness:
  "Read \<lparr>m_refs = 1, m_blocks = [], m_size = 0\<rparr> 0 5 [] = OK (Slice_empty, []) \<and>
   Read \<lparr>m_refs = 1, m_blocks = [], m_size = 0\<rparr> 1 5 [] = IOError ''Offset greater than file size.'' ''''"
  using read_boundary [of "\<lparr>m_refs = 1, m_blocks = [], m_size = 0\<rparr>" 5 "[]" 1]
  by simp

subsection \<open>Appending, preallocating and the storage invariant\<close>

lemma PreAllocate_reserves:
  assumes "capacity_ok f" and "memset_first_byte p = p"
  shows "\<exists>f'. PreAllocate f sz p = OK f' \<and> capacity_ok f' \<and> m_size f' = m_size f \<and>
           m_refs f' = m_refs f \<and>
           (\<forall>i<m_size f. cell_at f' i = cell_at f i) \<and>
           length (m_blocks f) \<le> length (m_blocks f') \<and>
           m_size f + sz \<le> length (m_blocks f') * kBlockSize"
proof -
  from AppendRaw_correct [OF assms(1), of "replicate sz None"] obtain f1 where
    a: "AppendRaw f (replicate sz None) = OK f1" and cap: "capacity_ok f1" and
    s: "m_size f1 = m_size f + sz" and r: "m_refs f1 = m_refs f" and
    l: "length (m_blocks f) \<le> length (m_blocks f1)" and
    old: "\<forall>i<m_size f. cell_at f1 i = cell_at f i"
    by auto
  have "PreAllocate f sz p = OK (f1\<lparr>m_size := m_size f1 - sz\<rparr>)"
    using a by (simp add: PreAllocate_aligned [OF assms(2)] and_then_def)
  with cap s r l old show ?thesis
    by (simp add: capacity_ok_def cell_at_def)
qed

lemma PreAllocate_OK:
  assumes "capacity_ok f" and "PreAllocate f sz p = OK f'"
  shows "capacity_ok f' \<and> m_size f' = m_size f \<and> m_refs f' = m_refs f"
  using PreAllocate_reserves [OF assms(1) PreAllocate_OK_aligned [OF assms(2)], of sz] assms(2)
  by auto

lemma PreAllocate_one_byte:
  assumes "memset_first_byte p = p"
  shows "PreAllocate FileState_new 1 p =
     OK \<lparr>m_refs = 0, m_blocks = [memcpy_block new_block 0 [None] 1], m_size = 0\<rparr>"
  by (simp add: PreAllocate_aligned [OF assms] AppendRaw.simps and_then_def FileState_new_def
      kBlockSize_def Let_def)

lemma PreAllocate_one_byte_cases:
  "PreAllocate FileState_new 1 p =
     (if memset_first_byte p = p
      then OK \<lparr>m_refs = 0, m_blocks = [memcpy_block new_block 0 [None] 1], m_size = 0\<rparr>
      else Fault)"
proof (cases "memset_first_byte p = p")
  case True
  with PreAllocate_one_byte [OF True] show ?thesis by simp
next
  case False
  with PreAllocate_unaligned [OF False, of FileState_new 1] show ?thesis by simp
qed

text \<open>
  \<^verbatim>\<open>AppendRaw\<close> takes the last block of the vector for the block that holds offset \<open>size\<close>.
  After a \<^verbatim>\<open>PreAllocate\<close> that has pushed a block the two differ: an append at a size that
  is a multiple of the block size pushes one more block and writes there, and \<^verbatim>\<open>Read\<close>,
  which looks in block \<open>offset / blockSize\<close>, returns the reserved block's padding.
\<close>

lemma Append_after_PreAllocate_example:
  "Append \<lparr>m_refs = 0, m_blocks = [memcpy_block new_block 0 [None] 1], m_size = 0\<rparr> [7] =
     OK \<lparr>m_refs = 0,
         m_blocks = [memcpy_block new_block 0 [None] 1, memcpy_block new_block 0 [Some 7] 1],
         m_size = 1\<rparr> \<and>
   Read \<lparr>m_refs = 0,
         m_blocks = [memcpy_block new_block 0 [None] 1, memcpy_block new_block 0 [Some 7] 1],
         m_size = 1\<rparr> 0 1 [] = OK (Slice_block 0 0 1, []) \<and>
   slice_cells \<lparr>m_refs = 0,
         m_blocks = [memcpy_block new_block 0 [None] 1, memcpy_block new_block 0 [Some 7] 1],
         m_size = 1\<rparr> [] (Slice_block 0 0 1) = [None]"
proof -
  have a: "Append \<lparr>m_refs = 0, m_blocks = [memcpy_block new_block 0 [None] 1], m_size = 0\<rparr> [7] =
     OK \<lparr>m_refs = 0,
         m_blocks = [memcpy_block new_block 0 [None] 1, memcpy_block new_block 0 [Some 7] 1],
         m_size = 1\<rparr>"
    by (simp add: Append_def AppendRaw.simps kBlockSize_def Let_def)
  have b: "Read \<lparr>m_refs = 0,
         m_blocks = [memcpy_block new_block 0 [None] 1, memcpy_block new_block 0 [Some 7] 1],
         m_size = 1\<rparr> 0 1 [] = OK (Slice_block 0 0 1, [])"
    by (simp add: Read_def kBlockSize_def Let_def)
  have c: "slice_cells \<lparr>m_refs = 0,
         m_blocks = [memcpy_block new_block 0 [None] 1, memcpy_block new_block 0 [Some 7] 1],
         m_size = 1\<rparr> [] (Slice_block 0 0 1) = [None]"
    by (simp add: block_cells_def memcpy_block_def)
  from a b c show ?thesis by simp
qed

text \<open>
  What the content operations keep.  \<^verbatim>\<open>Append\<close> and a batch of appends return \<^verbatim>\<open>OK\<close> and
  keep both \<open>size \<le> blocks.length * blockSize\<close> (\<open>capacity_ok\<close>) and, for a non-empty block
  vector, \<open>size > (blocks.length - 1) * blockSize\<close> (\<open>tail_used\<close>); a \<^verbatim>\<open>PreAllocate\<close> that
  returns keeps the first; \<^verbatim>\<open>Read\<close>, a \<^verbatim>\<open>const\<close> member, returns no state at all.
\<close>

lemma storage_invariant_of_appends:
  assumes "capacity_ok f"
  shows "(\<exists>f'. Append f d = OK f' \<and> capacity_ok f' \<and> (tail_used f \<longrightarrow> tail_used f')) \<and>
         (\<exists>f'. Appends f ds = OK f' \<and> capacity_ok f' \<and> (tail_used f \<longrightarrow> tail_used f')) \<and>
         (\<forall>f'. PreAllocate f sz p = OK f' \<longrightarrow> capacity_ok f')"
proof -
  from AppendRaw_correct [OF assms, of "map Some d"]
  have 1: "\<exists>f'. Append f d = OK f' \<and> capacity_ok f' \<and> (tail_used f \<longrightarrow> tail_used f')"
    unfolding Append_def by blast
  have 2: "\<exists>f'. Appends f ds = OK f' \<and> capacity_ok f' \<and> (tail_used f \<longrightarrow> tail_used f')"
    using assms
  proof (induction ds arbitrary: f)
    case Nil
    then show ?case by simp
  next
    case (Cons d ds)
    from AppendRaw_correct [OF Cons.prems, of "map Some d"] obtain f1 where
      a: "Append f d = OK f1" and cap1: "capacity_ok f1" and tu1: "tail_used f \<longrightarrow> tail_used f1"
      unfolding Append_def by blast
    from Cons.IH [OF cap1] obtain f' where
      "Appends f1 ds = OK f'" "capacity_ok f'" "tail_used f1 \<longrightarrow> tail_used f'"
      by blast
    with a tu1 show ?case by (auto simp: and_then_def)
  qed
  have 3: "\<forall>f'. PreAllocate f sz p = OK f' \<longrightarrow> capacity_ok f'"
    using PreAllocate_OK [OF assms] by blast
  from 1 2 3 show ?thesis by blast
qed

text \<open>
  Claim C4, at \<^verbatim>\<open>PreAllocate(1)\<close> on the empty file, the padding allocated at the address
  \<^verbatim>\<open>0x7F3A5C001000\<close>, a multiple of 256, so that the call returns.  The empty file satisfies
  both bounds.  The call returns \<^verbatim>\<open>OK\<close> and leaves one block and size 0, and
  \<open>0 > (1 - 1) * blockSize\<close> is false: the block is a wholly unused trailing block.
  \<^verbatim>\<open>AppendRaw\<close> and \<^verbatim>\<open>Read\<close> count on the bound: appending the byte 7 to that state pushes a
  second block and stores the byte there, and reading offset 0 afterwards returns the
  unwritten first byte of the reserved block, not 7.
\<close>

theorem PreAllocate_breaks_storage_invariant:
  "capacity_ok FileState_new \<and> tail_used FileState_new \<and>
   PreAllocate FileState_new 1 0x7F3A5C001000 =
     OK \<lparr>m_refs = 0, m_blocks = [memcpy_block new_block 0 [None] 1], m_size = 0\<rparr> \<and>
   capacity_ok \<lparr>m_refs = 0, m_blocks = [memcpy_block new_block 0 [None] 1], m_size = 0\<rparr> \<and>
   \<not> tail_used \<lparr>m_refs = 0, m_blocks = [memcpy_block new_block 0 [None] 1], m_size = 0\<rparr> \<and>
   Append \<lparr>m_refs = 0, m_blocks = [memcpy_block new_block 0 [None] 1], m_size = 0\<rparr> [7] =
     OK \<lparr>m_refs = 0,
         m_blocks = [memcpy_block new_block 0 [None] 1, memcpy_block new_block 0 [Some 7] 1],
         m_size = 1\<rparr> \<and>
   Read \<lparr>m_refs = 0,
         m_blocks = [memcpy_block new_block 0 [None] 1, memcpy_block new_block 0 [Some 7] 1],
         m_size = 1\<rparr> 0 1 [] = OK (Slice_block 0 0 1, []) \<and>
   slice_cells \<lparr>m_refs = 0,
         m_blocks = [memcpy_block new_block 0 [None] 1, memcpy_block new_block 0 [Some 7] 1],
         m_size = 1\<rparr> [] (Slice_block 0 0 1) = [None]"
proof -
  have al: "memset_first_byte 0x7F3A5C001000 = 0x7F3A5C001000"
    by (simp add: memset_first_byte_def)
  have cap: "capacity_ok \<lparr>m_refs = 0, m_blocks = [memcpy_block new_block 0 [None] 1], m_size = 0\<rparr>"
    by (simp add: capacity_ok_def)
  have tu: "\<not> tail_used \<lparr>m_refs = 0, m_blocks = [memcpy_block new_block 0 [None] 1], m_size = 0\<rparr>"
    by (simp add: tail_used_def)
  from capacity_ok_new tail_used_new PreAllocate_one_byte [OF al] cap tu
    Append_after_PreAllocate_example
  show ?thesis by blast
qed

text \<open>
  Claim C5, at \<^verbatim>\<open>PreAllocate(1)\<close> on the empty file, for every address \<open>p\<close> the allocator may
  return for the padding.  If \<open>p\<close> is not a multiple of 256, the \<^verbatim>\<open>memset\<close> has changed the
  pointer and the call is a \<open>Fault\<close>.  If it is, the call returns \<^verbatim>\<open>OK\<close> and leaves the size
  at 0 and one block behind, but the byte it stored in that block is not a zero byte:
  it is whatever the unwritten padding held.  In neither case has the call appended a
  zero byte.  (For a call that returns, \<open>PreAllocate_reserves\<close> above is the rest of the
  claim: the size and every cell below it are as before, and the blocks cover
  \<open>size + n\<close> bytes.)
\<close>

theorem preallocate_padding_not_zeroed:
  "PreAllocate FileState_new 1 p =
     (if unat p mod 256 = 0
      then OK \<lparr>m_refs = 0, m_blocks = [memcpy_block new_block 0 [None] 1], m_size = 0\<rparr>
      else Fault) \<and>
   memcpy_block new_block 0 [None] 1 0 \<noteq> Some 0"
  using PreAllocate_one_byte_cases [of p]
  by (simp add: memcpy_block_def memset_first_byte_fixed)

subsection \<open>Writing through a view\<close>

lemma deref_valid: "deref h p = Some f \<Longrightarrow> p \<noteq> NULL \<and> p \<le> length h \<and> h ! (p - 1) = Some f"
  by (auto simp: deref_def split: if_splits)

lemma deref_heap_put:
  assumes "deref h p \<noteq> None"
  shows "deref (heap_put h p x) q = (if q = p then x else deref h q)"
proof -
  from assms have p: "p \<noteq> NULL" "p \<le> length h"
    by (auto simp: deref_def split: if_splits)
  show ?thesis
  proof (cases "q = NULL \<or> length h < q")
    case True
    with p show ?thesis by (auto simp: deref_def heap_put_def)
  next
    case False
    with p have "(q - 1 = p - 1) = (q = p)" by (auto simp: NULL_def)
    with False p show ?thesis
      by (auto simp: deref_def heap_put_def NULL_def nth_list_update)
  qed
qed

lemma heap_put_twice [simp]: "heap_put (heap_put h p x) p y = heap_put h p y"
  by (simp add: heap_put_def)

lemma heap_put_same:
  assumes "deref h p = Some f"
  shows "heap_put h p (Some f) = h"
proof -
  from deref_valid [OF assms] have "Some f = h ! (p - 1)" by simp
  then show ?thesis unfolding heap_put_def by (simp only: list_update_id)
qed

lemma length_heap_put [simp]: "length (heap_put h p x) = length h"
  by (simp add: heap_put_def)

lemma and_then_OK [simp]: "and_then (OK x) k = k x"
  by (simp add: and_then_def)

lemma and_then_IOError [simp]: "and_then (IOError a b) k = IOError a b"
  by (simp add: and_then_def)

lemma and_then_Fault [simp]: "and_then Fault k = Fault"
  by (simp add: and_then_def)

lemma and_then_assoc: "and_then (and_then m k) k' = and_then m (\<lambda>x. and_then (k x) k')"
  by (cases m) simp_all

lemma and_then_return [simp]: "and_then m OK = m"
  by (cases m) simp_all

lemma and_then_eq_OK: "and_then m k = OK y \<Longrightarrow> \<exists>x. m = OK x \<and> k x = OK y"
  by (cases m) simp_all

lemma update_file_live:
  "deref h p = Some f \<Longrightarrow> update_file h p m = and_then (m f) (\<lambda>f'. OK (heap_put h p (Some f')))"
  by (simp add: update_file_def)

lemma AppendVector_Appends:
  assumes "deref h file = Some f"
  shows "WritableFile_AppendVector h (WritableFileImpl file) ds =
           and_then (Appends f ds) (\<lambda>f'. OK (heap_put h file (Some f')))"
  using assms
proof (induction ds arbitrary: h f)
  case Nil
  then show ?case by (simp add: heap_put_same)
next
  case (Cons d ds)
  show ?case
  proof (cases "Append f d")
    case (OK f1)
    have live: "deref (heap_put h file (Some f1)) file = Some f1"
      using Cons.prems by (simp add: deref_heap_put)
    show ?thesis
      using Cons.prems OK Cons.IH [OF live] by (simp add: update_file_live)
  qed (use Cons.prems in \<open>simp_all add: update_file_live\<close>)
qed

lemma AppendVector_as_writes:
  "WritableFile_AppendVector h (WritableFileImpl p) ds = writes h (WritableFileImpl p) (map Write_Append ds)"
proof (induction ds arbitrary: h)
  case Nil
  show ?case by simp
next
  case (Cons d ds)
  show ?case by (cases "WritableFile_Append h (WritableFileImpl p) d") (simp_all add: Cons.IH)
qed

lemma writes_append:
  "writes h v (xs @ ys) = and_then (writes h v xs) (\<lambda>h'. writes h' v ys)"
proof (induction xs arbitrary: h)
  case Nil
  show ?case by simp
next
  case (Cons x xs)
  show ?case by (cases "write_one h v x") (simp_all add: Cons.IH)
qed

lemma writes_flatten:
  "writes h (WritableFileImpl p) ops =
     writes h (WritableFileImpl p) (map Write_Append (concat (map written ops)))"
proof (induction ops arbitrary: h)
  case Nil
  show ?case by simp
next
  case (Cons x ops)
  show ?case
  proof (cases x)
    case (Write_Append d)
    then show ?thesis
      by (cases "WritableFile_Append h (WritableFileImpl p) d") (simp_all add: Cons.IH)
  next
    case (Write_AppendVector ds)
    let ?v = "WritableFileImpl p"
    have "writes h ?v (x # ops) = and_then (writes h ?v (map Write_Append ds)) (\<lambda>h'. writes h' ?v ops)"
      using Write_AppendVector by (simp add: AppendVector_as_writes)
    also have "\<dots> = and_then (writes h ?v (map Write_Append ds))
                       (\<lambda>h'. writes h' ?v (map Write_Append (concat (map written ops))))"
      using Cons.IH by simp
    also have "\<dots> = writes h ?v (map Write_Append ds @ map Write_Append (concat (map written ops)))"
      by (simp add: writes_append)
    finally show ?thesis using Write_AppendVector by simp
  qed
qed

text \<open>
  Claim C9.  Take a writable view on a file as \<^verbatim>\<open>NewWritableFile\<close> creates it (allocated,
  size 0, no block) and any sequence of \<^verbatim>\<open>Append\<close> and \<^verbatim>\<open>AppendVector\<close> calls through the
  view.  Every call returns \<^verbatim>\<open>OK\<close>; the final size is the sum of the lengths of all the
  byte strings passed, a batch counted item by item; the sequence leaves the heap as
  the sequence of single appends of the same items does; and an \<^verbatim>\<open>AppendVector\<close> of \<open>ds\<close>
  is the same as appending each item of \<open>ds\<close> in order.
\<close>

theorem appends_sum_of_lengths:
  assumes "deref h file = Some f" and "m_size f = 0" and "m_blocks f = []"
  shows "\<exists>h' f'. writes h (WritableFileImpl file) ops = OK h' \<and>
           deref h' file = Some f' \<and>
           m_size f' = sum_list (map length (concat (map written ops))) \<and>
           writes h (WritableFileImpl file) ops =
             writes h (WritableFileImpl file) (map Write_Append (concat (map written ops))) \<and>
           WritableFile_AppendVector h (WritableFileImpl file) ds =
             writes h (WritableFileImpl file) (map Write_Append ds)"
proof -
  let ?all = "concat (map written ops)"
  let ?v = "WritableFileImpl file"
  have cap: "capacity_ok f" and tu: "tail_used f"
    using assms(2,3) by (simp_all add: capacity_ok_def tail_used_def)
  from Appends_correct [OF cap tu, of ?all] obtain f' where
    run: "Appends f ?all = OK f'" and sz: "m_size f' = m_size f + length (concat ?all)"
    by blast
  have flat: "writes h ?v ops = writes h ?v (map Write_Append ?all)"
    by (rule writes_flatten)
  also have "\<dots> = WritableFile_AppendVector h ?v ?all"
    by (simp add: AppendVector_as_writes)
  also have "\<dots> = OK (heap_put h file (Some f'))"
    using AppendVector_Appends [OF assms(1), of ?all] run by simp
  finally have w: "writes h ?v ops = OK (heap_put h file (Some f'))" .
  have "deref (heap_put h file (Some f')) file = Some f'"
    using assms(1) by (simp add: deref_heap_put)
  moreover have "m_size f' = sum_list (map length ?all)"
    using sz assms(2) by (simp add: length_concat)
  ultimately show ?thesis
    using w flat AppendVector_as_writes [of h "file" ds] by blast
qed

theorem appends_sum_of_lengths_witness:
  "\<exists>h' f'. writes [Some \<lparr>m_refs = 2, m_blocks = [], m_size = 0\<rparr>] (WritableFileImpl 1)
              [Write_Append [1, 2], Write_AppendVector [[3], [4, 5, 6]]] = OK h' \<and>
           deref h' 1 = Some f' \<and>
           m_size f' = 6 \<and>
           writes [Some \<lparr>m_refs = 2, m_blocks = [], m_size = 0\<rparr>] (WritableFileImpl 1)
              [Write_Append [1, 2], Write_AppendVector [[3], [4, 5, 6]]] =
             writes [Some \<lparr>m_refs = 2, m_blocks = [], m_size = 0\<rparr>] (WritableFileImpl 1)
              [Write_Append [1, 2], Write_Append [3], Write_Append [4, 5, 6]] \<and>
           WritableFile_AppendVector [Some \<lparr>m_refs = 2, m_blocks = [], m_size = 0\<rparr>]
              (WritableFileImpl 1) [[3], [4, 5, 6]] =
             writes [Some \<lparr>m_refs = 2, m_blocks = [], m_size = 0\<rparr>] (WritableFileImpl 1)
              [Write_Append [3], Write_Append [4, 5, 6]]"
proof -
  have live: "deref [Some \<lparr>m_refs = 2, m_blocks = [], m_size = 0\<rparr>] 1 =
                Some \<lparr>m_refs = 2, m_blocks = [], m_size = 0\<rparr>"
    by (simp add: deref_def NULL_def)
  let ?h = "[Some \<lparr>m_refs = 2, m_blocks = [], m_size = 0\<rparr>]"
  let ?ops = "[Write_Append [1, 2], Write_AppendVector [[3], [4, 5, 6]]]"
  from appends_sum_of_lengths [OF live, of ?ops "[[3], [4, 5, 6]]"] obtain h' f' where
    a: "writes ?h (WritableFileImpl 1) ?ops = OK h'" and b: "deref h' 1 = Some f'" and
    c: "m_size f' = sum_list (map length (concat (map written ?ops)))" and
    d: "writes ?h (WritableFileImpl 1) ?ops =
          writes ?h (WritableFileImpl 1) (map Write_Append (concat (map written ?ops)))" and
    e: "WritableFile_AppendVector ?h (WritableFileImpl 1) [[3], [4, 5, 6]] =
          writes ?h (WritableFileImpl 1) (map Write_Append [[3], [4, 5, 6]])"
    by auto
  have c': "m_size f' = 6" unfolding c by simp
  have d': "writes ?h (WritableFileImpl 1) ?ops =
              writes ?h (WritableFileImpl 1) [Write_Append [1, 2], Write_Append [3], Write_Append [4, 5, 6]]"
    using d by simp
  have e': "WritableFile_AppendVector ?h (WritableFileImpl 1) [[3], [4, 5, 6]] =
              writes ?h (WritableFileImpl 1) [Write_Append [3], Write_Append [4, 5, 6]]"
    using e by simp
  from a b c' d' e' show ?thesis by blast
qed

section \<open>Properties of InMemoryEnv\<close>

lemma map_of_map_assign: "map_of (map_assign m k v) = (map_of m)(k \<mapsto> v)"
  by (induction m k v rule: map_assign.induct) (auto simp: fun_eq_iff)

lemma map_of_map_erase: "map_of (map_erase m k) = (map_of m)(k := None)"
  by (induction m) (auto simp: map_erase_def fun_eq_iff)

lemma Unref_live:
  assumes "deref h p = Some f" "1 \<le> m_refs f"
  shows "Unref h p = OK (heap_put h p (if m_refs f = 1 then None else Some (f\<lparr>m_refs := m_refs f - 1\<rparr>)))"
  using assms by (auto simp: Unref_def Let_def)

lemma Ref_live:
  assumes "deref h p = Some f"
  shows "Ref h p = OK (heap_put h p (Some (f\<lparr>m_refs := m_refs f + 1\<rparr>)))"
  using assms by (simp add: Ref_def)

lemma Read_ignores_refs [simp]: "Read (f\<lparr>m_refs := r\<rparr>) offset n scratch = Read f offset n scratch"
  by (simp add: Read_def Let_def)

subsection \<open>GetChildren\<close>

lemma prefix_separator:
  "(length dir + 1 \<le> length filename \<and> filename ! length dir = c \<and> prefix dir filename)
     = prefix (dir @ [c]) filename"
proof
  assume a: "length dir + 1 \<le> length filename \<and> filename ! length dir = c \<and> prefix dir filename"
  then obtain zs where zs: "filename = dir @ zs" by (auto simp: prefix_def)
  with a obtain z zs' where "zs = z # zs'" by (cases zs) auto
  with a zs show "prefix (dir @ [c]) filename" by (auto simp: prefix_def)
next
  assume "prefix (dir @ [c]) filename"
  then obtain zs where "filename = dir @ c # zs" by (auto simp: prefix_def)
  then show "length dir + 1 \<le> length filename \<and> filename ! length dir = c \<and> prefix dir filename"
    by (auto simp: prefix_def)
qed

lemma GetChildren_loop_filter:
  "GetChildren_loop dir m =
     map (drop (length dir + 1)) (filter (prefix (dir @ ''/'')) (map fst m))"
proof (induction m)
  case Nil
  show ?case by simp
next
  case (Cons e m)
  obtain filename p where e: "e = (filename, p)" by (cases e)
  show ?case
    unfolding e using Cons.IH prefix_separator [of dir filename "CHR ''/''"]
    by (simp del: One_nat_def)
qed

text \<open>
  Claim C8, as amended.  For every environment and directory string \<open>dir\<close>, \<^verbatim>\<open>GetChildren\<close>
  returns \<^verbatim>\<open>OK\<close> with, in the order of the keys of the map (increasing, as the map keeps
  them), the rest of the path after \<open>dir\<close> and the separator for exactly those stored
  paths that have \<open>dir\<close> followed by the separator as a prefix.  The prefix need not be
  strict: a stored path equal to \<open>dir\<close> plus the separator is listed, with the empty
  name.  On \<open>{"/a/x", "/a/y", "/b/z"}\<close> the children of \<open>"/a"\<close> are \<open>["x", "y"]\<close> (the witness).
\<close>

theorem GetChildren_lists_children:
  assumes "sorted_wrt (<) (map fst (m_file_map s))"
  shows "GetChildren s dir =
           OK (map (drop (length dir + 1)) (filter (prefix (dir @ ''/'')) (map fst (m_file_map s)))) \<and>
         sorted_wrt (<) (filter (prefix (dir @ ''/'')) (map fst (m_file_map s)))"
  using assms by (simp add: GetChildren_def GetChildren_loop_filter sorted_wrt_filter)

theorem GetChildren_lists_children_witness:
  "GetChildren \<lparr>fs_heap = [], m_file_map = [(''/a/x'', 1), (''/a/y'', 2), (''/b/z'', 3)]\<rparr> ''/a'' =
     OK [''x'', ''y'']"
  using GetChildren_lists_children [of "\<lparr>fs_heap = [], m_file_map = [(''/a/x'', 1), (''/a/y'', 2), (''/b/z'', 3)]\<rparr>" "''/a''"]
  by simp

text \<open>
  With "strict prefix" the claim fails.  Create the file \<open>"/a/"\<close>: the stored path is
  \<open>"/a"\<close> plus the separator, not a longer string, and \<^verbatim>\<open>GetChildren("/a")\<close> lists it.
\<close>

theorem GetChildren_counterexample:
  "NewWritableFile NewMemEnv ''/a/'' =
     OK (WritableFileImpl 1,
         \<lparr>fs_heap = [Some \<lparr>m_refs = 2, m_blocks = [], m_size = 0\<rparr>], m_file_map = [(''/a/'', 1)]\<rparr>) \<and>
   GetChildren \<lparr>fs_heap = [Some \<lparr>m_refs = 2, m_blocks = [], m_size = 0\<rparr>],
                 m_file_map = [(''/a/'', 1)]\<rparr> ''/a'' = OK [''''] \<and>
   \<not> strict_prefix (''/a'' @ ''/'') ''/a/''"
  by (simp add: NewWritableFile_def NewMemEnv_def new_FileState_def Ref_def deref_def NULL_def
      heap_put_def WritableFileImpl_new_def FileState_new_def and_then_def GetChildren_def)

subsection \<open>DeleteRecursively\<close>

lemma DeleteRecursively_loop_filter:
  "DeleteRecursively_loop dir m = filter (\<lambda>e. \<not> prefix dir (fst e)) m"
proof (induction m)
  case Nil
  show ?case by simp
next
  case (Cons e m)
  obtain filename p where e: "e = (filename, p)" by (cases e)
  have "prefix dir filename \<Longrightarrow> length dir \<le> length filename"
    by (rule prefix_length_le)
  then show ?case unfolding e using Cons.IH by auto
qed

lemma DeleteRecursively_removes_prefix:
  assumes "dirname \<noteq> []"
  shows "DeleteRecursively s dirname =
           OK (s\<lparr>m_file_map :=
                  filter (\<lambda>e. \<not> prefix (if last dirname \<noteq> CHR ''/'' then dirname @ ''/'' else dirname) (fst e))
                    (m_file_map s)\<rparr>)"
  using assms by (simp add: DeleteRecursively_def DeleteRecursively_loop_filter Let_def)

lemma DeleteRecursively_example:
  "DeleteRecursively
     \<lparr>fs_heap = h, m_file_map = [(''/a/b'', 1), (''/a/c/d'', 2), (''/ab'', 3), (''/b'', 4)]\<rparr> ''/a'' =
   OK \<lparr>fs_heap = h, m_file_map = [(''/ab'', 3), (''/b'', 4)]\<rparr>"
  by (simp add: DeleteRecursively_def)

text \<open>
  Claim C3, where the code departs from it.  \<open>DeleteRecursively_removes_prefix\<close> and
  \<open>DeleteRecursively_example\<close> above are the part the code does: the directory name gets
  a final separator, and exactly the paths with that prefix leave the map.  The
  reference is not released.  Create \<open>"/a/b"\<close> in a new environment and delete the
  writable view: the file has \<open>refs_ = 1\<close>, the map's reference.  \<^verbatim>\<open>DeleteRecursively("/a")\<close>
  then removes the entry and leaves the \<^verbatim>\<open>FileState\<close> allocated with \<open>refs_ = 1\<close>, where
  \<^verbatim>\<open>DeleteFile("/a/b")\<close> on the same state calls \<^verbatim>\<open>Unref\<close> and the object is deleted.
\<close>

theorem DeleteRecursively_keeps_reference:
  "NewWritableFile NewMemEnv ''/a/b'' =
     OK (WritableFileImpl 1,
         \<lparr>fs_heap = [Some \<lparr>m_refs = 2, m_blocks = [], m_size = 0\<rparr>], m_file_map = [(''/a/b'', 1)]\<rparr>) \<and>
   view_delete [Some \<lparr>m_refs = 2, m_blocks = [], m_size = 0\<rparr>] (WritableFileImpl 1) =
     OK [Some \<lparr>m_refs = 1, m_blocks = [], m_size = 0\<rparr>] \<and>
   DeleteRecursively
     \<lparr>fs_heap = [Some \<lparr>m_refs = 1, m_blocks = [], m_size = 0\<rparr>], m_file_map = [(''/a/b'', 1)]\<rparr> ''/a'' =
     OK \<lparr>fs_heap = [Some \<lparr>m_refs = 1, m_blocks = [], m_size = 0\<rparr>], m_file_map = []\<rparr> \<and>
   DeleteFile
     \<lparr>fs_heap = [Some \<lparr>m_refs = 1, m_blocks = [], m_size = 0\<rparr>], m_file_map = [(''/a/b'', 1)]\<rparr> ''/a/b'' =
     OK \<lparr>fs_heap = [None], m_file_map = []\<rparr>"
  by (simp add: NewWritableFile_def NewMemEnv_def new_FileState_def Ref_def deref_def NULL_def
      heap_put_def WritableFileImpl_new_def FileState_new_def view_delete_def Unref_def
      DeleteRecursively_def DeleteFile_def DeleteFileInternal_def map_erase_def and_then_def)

subsection \<open>RenameFile\<close>

text \<open>
  Renaming to another name, in a state where the pointer stored for \<open>src\<close> is allocated
  and the one stored for \<open>target\<close>, if there is one, is another allocated object with
  \<open>refs_ \<ge> 1\<close>.
\<close>

lemma RenameFile_moves_allocated:
  assumes "src \<noteq> target"
    and "map_of (m_file_map s) src = Some file"
    and "deref (fs_heap s) file = Some f"
    and "\<forall>old. map_of (m_file_map s) target = Some old \<longrightarrow>
           old \<noteq> file \<and> (\<exists>g. deref (fs_heap s) old = Some g \<and> 1 \<le> m_refs g)"
  shows "(\<forall>s' src' target'. map_of (m_file_map s') src' = None \<longrightarrow>
            RenameFile s' src' target' = IOError src' ''File not found'') \<and>
         (\<exists>s1. RenameFile s src target = OK s1 \<and>
           map_of (m_file_map s1) = ((map_of (m_file_map s))(target \<mapsto> file))(src := None) \<and>
           (map_of (m_file_map s) target = None \<longrightarrow> fs_heap s1 = fs_heap s) \<and>
           (\<forall>old. map_of (m_file_map s) target = Some old \<longrightarrow> Unref (fs_heap s) old = OK (fs_heap s1)) \<and>
           deref (fs_heap s1) file = Some f \<and>
           \<not> FileExists s1 src \<and>
           (\<exists>s2. NewRandomAccessFile s1 target = OK (RandomAccessFileImpl file, s2) \<and>
                 (\<forall>offset n scratch.
                    RandomAccessFile_Read (fs_heap s2) (RandomAccessFileImpl file) offset n scratch =
                      Read f offset n scratch)))"
proof -
  have absent: "\<forall>s' src' target'. map_of (m_file_map s') src' = None \<longrightarrow>
            RenameFile s' src' target' = IOError src' ''File not found''"
    by (simp add: RenameFile_def)
  let ?m = "m_file_map s"
  let ?h = "fs_heap s"
  obtain h1 where
    del: "DeleteFileInternal s target = OK \<lparr>fs_heap = h1, m_file_map = map_erase ?m target\<rparr>" and
    h1_none: "map_of ?m target = None \<longrightarrow> h1 = ?h" and
    h1_some: "\<forall>old. map_of ?m target = Some old \<longrightarrow> Unref ?h old = OK h1" and
    keep: "deref h1 file = Some f"
  proof (cases "map_of ?m target")
    case None
    have "map_erase ?m target = ?m"
      using None unfolding map_erase_def
      by (intro filter_True) (auto simp: map_of_eq_None_iff image_iff)
    then have "DeleteFileInternal s target = OK \<lparr>fs_heap = ?h, m_file_map = map_erase ?m target\<rparr>"
      using None by (simp add: DeleteFileInternal_def)
    with None assms(3) that show ?thesis by simp
  next
    case (Some old)
    with assms(4) obtain g where old: "old \<noteq> file" "deref ?h old = Some g" "1 \<le> m_refs g"
      by blast
    let ?h1 = "heap_put ?h old (if m_refs g = 1 then None else Some (g\<lparr>m_refs := m_refs g - 1\<rparr>))"
    have u: "Unref ?h old = OK ?h1" by (rule Unref_live [OF old(2,3)])
    have "deref ?h1 file = Some f"
      using old assms(3) by (simp add: deref_heap_put)
    moreover have "DeleteFileInternal s target = OK \<lparr>fs_heap = ?h1, m_file_map = map_erase ?m target\<rparr>"
      using Some u by (simp add: DeleteFileInternal_def)
    ultimately show ?thesis using that Some u by simp
  qed
  let ?m1 = "map_erase ?m target"
  have src1: "map_of ?m1 src = Some file"
    using assms(1,2) by (simp add: map_of_map_erase)
  let ?s1 = "\<lparr>fs_heap = h1, m_file_map = map_erase (map_assign ?m1 target file) src\<rparr>"
  have run: "RenameFile s src target = OK ?s1"
    using assms(2) del src1 by (simp add: RenameFile_def map_index_def)
  have m: "map_of (m_file_map ?s1) = ((map_of ?m)(target \<mapsto> file))(src := None)"
    by (simp add: map_of_map_erase map_of_map_assign)
  have tgt: "map_of (m_file_map ?s1) target = Some file"
    using assms(1) unfolding m by simp
  have nosrc: "\<not> FileExists ?s1 src"
    unfolding FileExists_def m by simp
  let ?h2 = "heap_put h1 file (Some (f\<lparr>m_refs := m_refs f + 1\<rparr>))"
  have "NewRandomAccessFile ?s1 target = OK (RandomAccessFileImpl file, ?s1\<lparr>fs_heap := ?h2\<rparr>)"
    using tgt Ref_live [OF keep]
    by (simp add: NewRandomAccessFile_def RandomAccessFileImpl_new_def)
  moreover have "RandomAccessFile_Read (fs_heap (?s1\<lparr>fs_heap := ?h2\<rparr>)) (RandomAccessFileImpl file) offset n scratch =
          Read f offset n scratch" for offset n scratch
    using keep by (simp add: deref_heap_put)
  ultimately have rd: "\<exists>s2. NewRandomAccessFile ?s1 target = OK (RandomAccessFileImpl file, s2) \<and>
                 (\<forall>offset n scratch.
                    RandomAccessFile_Read (fs_heap s2) (RandomAccessFileImpl file) offset n scratch =
                      Read f offset n scratch)"
    by blast
  have "\<exists>s1. RenameFile s src target = OK s1 \<and>
           map_of (m_file_map s1) = ((map_of (m_file_map s))(target \<mapsto> file))(src := None) \<and>
           (map_of (m_file_map s) target = None \<longrightarrow> fs_heap s1 = fs_heap s) \<and>
           (\<forall>old. map_of (m_file_map s) target = Some old \<longrightarrow> Unref (fs_heap s) old = OK (fs_heap s1)) \<and>
           deref (fs_heap s1) file = Some f \<and>
           \<not> FileExists s1 src \<and>
           (\<exists>s2. NewRandomAccessFile s1 target = OK (RandomAccessFileImpl file, s2) \<and>
                 (\<forall>offset n scratch.
                    RandomAccessFile_Read (fs_heap s2) (RandomAccessFileImpl file) offset n scratch =
                      Read f offset n scratch))"
    using run m h1_none h1_some keep nosrc rd
    by (intro exI [of _ ?s1]) simp
  with absent show ?thesis by blast
qed

section \<open>Reference counts and lifetimes\<close>

lemma deref_append:
  "deref (h @ [x]) q = (if q = length h + 1 then x else deref h q)"
  by (auto simp: deref_def NULL_def nth_append)

lemma deref_beyond: "length h < p \<Longrightarrow> deref h p = None"
  by (simp add: deref_def)

lemma heap_invD:
  "heap_inv leak hold h \<Longrightarrow>
     (case deref h q of
        None \<Rightarrow> hold q = 0 \<and> leak q = 0
      | Some f \<Rightarrow> m_refs f = int (hold q) + int (leak q) \<and> 1 \<le> m_refs f \<and> capacity_ok f)"
  by (simp add: heap_inv_def)

lemma heap_inv_live:
  assumes "heap_inv leak hold h" "0 < hold p"
  obtains f where "deref h p = Some f" "m_refs f = int (hold p) + int (leak p)" "capacity_ok f"
  using heap_invD [OF assms(1), of p] assms(2)
  by (cases "deref h p") auto

lemma heap_inv_dead:
  assumes "heap_inv leak hold h" "deref h p = None"
  shows "hold p = 0" "leak p = 0"
  using heap_invD [OF assms(1), of p] assms(2) by auto

lemma Unref_heap_inv:
  assumes inv: "heap_inv leak hold h" and held: "0 < hold p"
  shows "\<exists>h'. Unref h p = OK h' \<and> heap_inv leak (hold(p := hold p - 1)) h' \<and>
           (\<forall>q. q \<noteq> p \<longrightarrow> deref h' q = deref h q) \<and>
           (\<forall>f'. deref h' p = Some f' \<longrightarrow>
                 (\<exists>f. deref h p = Some f \<and> f' = f\<lparr>m_refs := m_refs f - 1\<rparr>))"
proof -
  from heap_inv_live [OF inv held] obtain f where
    f: "deref h p = Some f" and refs: "m_refs f = int (hold p) + int (leak p)" and
    cap: "capacity_ok f"
    by blast
  have pos: "1 \<le> m_refs f" using refs held by simp
  let ?x = "if m_refs f = 1 then None else Some (f\<lparr>m_refs := m_refs f - 1\<rparr>)"
  let ?h' = "heap_put h p ?x"
  have u: "Unref h p = OK ?h'" by (rule Unref_live [OF f pos])
  have d: "deref ?h' q = (if q = p then ?x else deref h q)" for q
    using f by (simp add: deref_heap_put)
  have "heap_inv leak (hold(p := hold p - 1)) ?h'"
    unfolding heap_inv_def
  proof
    fix q
    show "case deref ?h' q of
            None \<Rightarrow> (hold(p := hold p - 1)) q = 0 \<and> leak q = 0
          | Some g \<Rightarrow> m_refs g = int ((hold(p := hold p - 1)) q) + int (leak q) \<and>
                      1 \<le> m_refs g \<and> capacity_ok g"
    proof (cases "q = p")
      case True
      with refs held cap show ?thesis
        unfolding d by (auto simp: capacity_ok_def)
    next
      case False
      with heap_invD [OF inv, of q] show ?thesis
        unfolding d by (auto split: option.splits)
    qed
  qed
  with u d f show ?thesis by auto
qed

lemma Ref_heap_inv:
  assumes inv: "heap_inv leak hold h" and held: "0 < hold p"
  shows "\<exists>h' f. Ref h p = OK h' \<and> heap_inv leak (hold(p := hold p + 1)) h' \<and>
           (\<forall>q. q \<noteq> p \<longrightarrow> deref h' q = deref h q) \<and>
           deref h p = Some f \<and> deref h' p = Some (f\<lparr>m_refs := m_refs f + 1\<rparr>)"
proof -
  from heap_inv_live [OF inv held] obtain f where
    f: "deref h p = Some f" and refs: "m_refs f = int (hold p) + int (leak p)" and
    cap: "capacity_ok f"
    by blast
  let ?h' = "heap_put h p (Some (f\<lparr>m_refs := m_refs f + 1\<rparr>))"
  have r: "Ref h p = OK ?h'" by (rule Ref_live [OF f])
  have d: "deref ?h' q = (if q = p then Some (f\<lparr>m_refs := m_refs f + 1\<rparr>) else deref h q)" for q
    using f by (simp add: deref_heap_put)
  have "heap_inv leak (hold(p := hold p + 1)) ?h'"
    unfolding heap_inv_def
  proof
    fix q
    show "case deref ?h' q of
            None \<Rightarrow> (hold(p := hold p + 1)) q = 0 \<and> leak q = 0
          | Some g \<Rightarrow> m_refs g = int ((hold(p := hold p + 1)) q) + int (leak q) \<and>
                      1 \<le> m_refs g \<and> capacity_ok g"
    proof (cases "q = p")
      case True
      with refs held cap show ?thesis
        unfolding d by (auto simp: capacity_ok_def)
    next
      case False
      with heap_invD [OF inv, of q] show ?thesis
        unfolding d by (auto split: option.splits)
    qed
  qed
  with r d f show ?thesis by auto
qed

lemma update_heap_inv:
  assumes inv: "heap_inv leak hold h" and f: "deref h p = Some f"
    and same: "m_refs f' = m_refs f" and cap: "capacity_ok f'"
  shows "heap_inv leak hold (heap_put h p (Some f'))"
  unfolding heap_inv_def
proof
  fix q
  have d: "deref (heap_put h p (Some f')) q = (if q = p then Some f' else deref h q)"
    using f by (simp add: deref_heap_put)
  show "case deref (heap_put h p (Some f')) q of
          None \<Rightarrow> hold q = 0 \<and> leak q = 0
        | Some g \<Rightarrow> m_refs g = int (hold q) + int (leak q) \<and> 1 \<le> m_refs g \<and> capacity_ok g"
    using heap_invD [OF inv, of q] f same cap unfolding d by (auto split: option.splits)
qed

lemma new_heap_inv:
  assumes inv: "heap_inv leak hold h"
  shows "hold (length h + 1) = 0"
    and "heap_inv leak (hold(length h + 1 := 2)) (h @ [Some (FileState_new\<lparr>m_refs := 2\<rparr>)])"
proof -
  have dead: "deref h (length h + 1) = None" by (simp add: deref_beyond)
  from heap_inv_dead [OF inv dead] show "hold (length h + 1) = 0" by simp
  show "heap_inv leak (hold(length h + 1 := 2)) (h @ [Some (FileState_new\<lparr>m_refs := 2\<rparr>)])"
    unfolding heap_inv_def
  proof
    fix q
    show "case deref (h @ [Some (FileState_new\<lparr>m_refs := 2\<rparr>)]) q of
            None \<Rightarrow> (hold(length h + 1 := 2)) q = 0 \<and> leak q = 0
          | Some g \<Rightarrow> m_refs g = int ((hold(length h + 1 := 2)) q) + int (leak q) \<and>
                      1 \<le> m_refs g \<and> capacity_ok g"
    proof (cases "q = length h + 1")
      case True
      with heap_inv_dead [OF inv dead] show ?thesis
        by (simp add: deref_append capacity_ok_def FileState_new_def)
    next
      case False
      with heap_invD [OF inv, of q] show ?thesis
        by (auto simp: deref_append split: option.splits)
    qed
  qed
qed


subsection \<open>The map as a list of entries\<close>

lemma map_erase_absent: "map_of m k = None \<Longrightarrow> map_erase m k = m"
  unfolding map_erase_def by (intro filter_True) (auto simp: map_of_eq_None_iff image_iff)

lemma map_erase_assign_absent: "map_of m k = None \<Longrightarrow> map_erase (map_assign m k v) k = m"
proof (induction m k v rule: map_assign.induct)
  case (1 k v)
  show ?case by (simp add: map_erase_def)
next
  case (2 k' v' m k v)
  from "2.prems" have ne: "k \<noteq> k'" and rest: "map_of m k = None"
    by (auto split: if_splits)
  have tail: "map_erase m k = m" by (rule map_erase_absent [OF rest])
  show ?case
  proof (cases "k < k'")
    case True
    with ne tail show ?thesis by (simp add: map_erase_def)
  next
    case False
    with ne "2.IH" [OF ne False rest] show ?thesis by (simp add: map_erase_def)
  qed
qed

lemma map_assign_twice: "map_assign (map_assign m k v) k v' = map_assign m k v'"
  by (induction m k v rule: map_assign.induct) auto

lemma count_values_assign:
  "map_of m k = None \<Longrightarrow>
     count_list (map snd (map_assign m k v)) q = count_list (map snd m) q + (if q = v then 1 else 0)"
  by (induction m k v rule: map_assign.induct) (auto split: if_splits)

lemma keys_map_assign: "set (map fst (map_assign m k v)) = insert k (set (map fst m))"
  by (induction m k v rule: map_assign.induct) auto

lemma sorted_map_assign:
  "sorted_wrt (<) (map fst m) \<Longrightarrow> sorted_wrt (<) (map fst (map_assign m k v))"
proof (induction m k v rule: map_assign.induct)
  case (1 k v)
  show ?case by simp
next
  case (2 k' v' m k v)
  show ?case
  proof (cases "k = k'")
    case True
    with "2.prems" show ?thesis by simp
  next
    case ne: False
    show ?thesis
    proof (cases "k < k'")
      case True
      with ne "2.prems" show ?thesis by (auto intro: less_trans)
    next
      case False
      with ne have "k' < k" by simp
      with ne False "2.prems" "2.IH" [OF ne False] show ?thesis
        using keys_map_assign [of m k v] by auto
    qed
  qed
qed

lemma sorted_map_erase:
  "sorted_wrt (<) (map fst m) \<Longrightarrow> sorted_wrt (<) (map fst (map_erase m k))"
  by (induction m) (auto simp: map_erase_def)

lemma count_values_erase:
  assumes "sorted_wrt (<) (map fst m)" "map_of m k = Some p"
  shows "count_list (map snd (map_erase m k)) q + (if q = p then 1 else 0) = count_list (map snd m) q"
  using assms
proof (induction m)
  case Nil
  then show ?case by simp
next
  case (Cons e m)
  obtain k' v' where e: "e = (k', v')" by (cases e)
  show ?case
  proof (cases "k' = k")
    case True
    with Cons.prems e have p: "v' = p" and later: "\<forall>x\<in>set (map fst m). k < x" by auto
    then have "map_of m k = None"
      by (auto simp: map_of_eq_None_iff)
    then have "map_erase m k = m" by (rule map_erase_absent)
    then have "filter (\<lambda>e. fst e \<noteq> k) m = m" by (simp add: map_erase_def)
    with True e p show ?thesis by (simp add: map_erase_def)
  next
    case False
    with Cons.prems e have "sorted_wrt (<) (map fst m)" "map_of m k = Some p" by auto
    from Cons.IH [OF this] False e show ?thesis by (simp add: map_erase_def)
  qed
qed

lemma distinct_count_list: "distinct xs = (\<forall>x. count_list xs x \<le> 1)"
proof (induction xs)
  case Nil
  show ?case by simp
next
  case (Cons a xs)
  show ?case
  proof
    assume d: "distinct (a # xs)"
    then have "count_list xs a = 0" by simp
    with d Cons.IH show "\<forall>x. count_list (a # xs) x \<le> 1" by auto
  next
    assume c: "\<forall>x. count_list (a # xs) x \<le> 1"
    then have "count_list xs a = 0" using spec [OF c, of a] by simp
    then have "a \<notin> set xs" by (simp add: count_list_0_iff)
    moreover have "\<forall>x. count_list xs x \<le> 1"
    proof
      fix x show "count_list xs x \<le> 1" using spec [OF c, of x] by (simp split: if_splits)
    qed
    ultimately show "distinct (a # xs)" using Cons.IH by simp
  qed
qed

lemma map_of_value_counted: "map_of m k = Some p \<Longrightarrow> 0 < count_list (map snd m) p"
  by (metis count_list_0_iff gr0I image_eqI list.set_map map_of_SomeD snd_conv)

subsection \<open>The list of views\<close>

lemma live_views_append [simp]: "live_views (vs @ ws) = live_views vs @ live_views ws"
  by (induction vs rule: live_views.induct) auto

lemma live_views_member: "i < length vs \<Longrightarrow> vs ! i = Some v \<Longrightarrow> v \<in> set (live_views vs)"
proof (induction vs arbitrary: i rule: live_views.induct)
  case 1
  then show ?case by simp
next
  case (2 vs)
  then show ?case by (cases i) auto
next
  case (3 u vs)
  then show ?case by (cases i) auto
qed

lemma live_views_delete:
  "i < length vs \<Longrightarrow> vs ! i = Some v \<Longrightarrow>
     count_list (map g (live_views (vs[i := None]))) q + (if q = g v then 1 else 0)
       = count_list (map g (live_views vs)) q"
proof (induction vs arbitrary: i rule: live_views.induct)
  case 1
  then show ?case by simp
next
  case (2 vs)
  then show ?case by (cases i) auto
next
  case (3 u vs)
  then show ?case by (cases i) auto
qed

lemma live_views_delete_subset:
  "set (live_views (vs[i := None])) \<subseteq> set (live_views vs)"
proof (induction vs arbitrary: i rule: live_views.induct)
  case 1
  show ?case by simp
next
  case (2 vs)
  show ?case using 2 [of "i - 1"] by (cases i) auto
next
  case (3 u vs)
  show ?case using 3 [of "i - 1"] by (cases i) auto
qed

lemma live_views_replace:
  "i < length vs \<Longrightarrow> vs ! i = Some v \<Longrightarrow> g v' = g v \<Longrightarrow>
     map g (live_views (vs[i := Some v'])) = map g (live_views vs)"
proof (induction vs arbitrary: i rule: live_views.induct)
  case 1
  then show ?case by simp
next
  case (2 vs)
  then show ?case by (cases i) auto
next
  case (3 u vs)
  then show ?case by (cases i) auto
qed

lemma live_views_replace_set:
  "i < length vs \<Longrightarrow> set (live_views (vs[i := Some v'])) \<subseteq> insert v' (set (live_views vs))"
proof (induction vs arbitrary: i rule: live_views.induct)
  case 1
  then show ?case by simp
next
  case (2 vs)
  then show ?case by (cases i) auto
next
  case (3 u vs)
  then show ?case by (cases i) auto
qed

subsection \<open>Every operation keeps the accounting\<close>

lemma cursor_ok_mono:
  assumes "cursor_ok h v"
    and "\<And>f'. deref h' (m_file v) = Some f' \<Longrightarrow> \<exists>f. deref h (m_file v) = Some f \<and> m_size f \<le> m_size f'"
  shows "cursor_ok h' v"
proof (cases v)
  case (SequentialFileImpl p pos)
  show ?thesis
  proof (cases "deref h' p")
    case None
    with SequentialFileImpl show ?thesis by simp
  next
    case (Some f')
    with assms(2) SequentialFileImpl obtain f where "deref h p = Some f" "m_size f \<le> m_size f'"
      by auto
    with assms(1) SequentialFileImpl Some show ?thesis by simp
  qed
qed simp_all

lemma cursors_preserved:
  assumes "list_all (cursor_ok h) vs"
    and "\<And>v f'. v \<in> set vs \<Longrightarrow> deref h' (m_file v) = Some f' \<Longrightarrow>
           \<exists>f. deref h (m_file v) = Some f \<and> m_size f \<le> m_size f'"
  shows "list_all (cursor_ok h') vs"
  unfolding list_all_iff
proof
  fix v assume v: "v \<in> set vs"
  with assms(1) have "cursor_ok h v" by (simp add: list_all_iff)
  then show "cursor_ok h' v"
    by (rule cursor_ok_mono) (rule assms(2) [OF v])
qed

lemma world_invD:
  assumes "world_inv leak w"
  shows "sorted_wrt (<) (map fst (m_file_map (w_env w)))"
    and "distinct (map snd (m_file_map (w_env w)))"
    and "heap_inv leak (holders w) (fs_heap (w_env w))"
    and "list_all (cursor_ok (fs_heap (w_env w))) (live_views (w_views w))"
  using assms by (simp_all add: world_inv_def)



lemma refs_only_refl: "refs_only h h"
  by (simp add: refs_only_def)

lemma refs_only_trans: "refs_only h h1 \<Longrightarrow> refs_only h1 h2 \<Longrightarrow> refs_only h h2"
  unfolding refs_only_def by fastforce

lemma refs_only_cursors:
  assumes "refs_only h h'" "list_all (cursor_ok h) vs"
  shows "list_all (cursor_ok h') vs"
  using assms(2)
proof (rule cursors_preserved)
  fix v f' assume "deref h' (m_file v) = Some f'"
  with assms(1) show "\<exists>f. deref h (m_file v) = Some f \<and> m_size f \<le> m_size f'"
    unfolding refs_only_def by fastforce
qed

lemma DeleteFileInternal_present:
  assumes inv: "world_inv leak w" and present: "map_of (m_file_map (w_env w)) fname = Some p"
  shows "\<exists>h'. DeleteFileInternal (w_env w) fname =
                OK \<lparr>fs_heap = h', m_file_map = map_erase (m_file_map (w_env w)) fname\<rparr> \<and>
              world_inv leak (w\<lparr>w_env := \<lparr>fs_heap = h', m_file_map = map_erase (m_file_map (w_env w)) fname\<rparr>\<rparr>) \<and>
              refs_only (fs_heap (w_env w)) h' \<and>
              (\<forall>q. q \<noteq> p \<longrightarrow> deref h' q = deref (fs_heap (w_env w)) q) \<and>
              (\<forall>f'. deref h' p = Some f' \<longrightarrow>
                 (\<exists>f. deref (fs_heap (w_env w)) p = Some f \<and> f' = f\<lparr>m_refs := m_refs f - 1\<rparr>))"
proof -
  let ?m = "m_file_map (w_env w)"
  let ?h = "fs_heap (w_env w)"
  note I = world_invD [OF inv]
  have held: "0 < holders w p"
    using map_of_value_counted [OF present] by (simp add: holders_def)
  from Unref_heap_inv [OF I(3) held] obtain h' where
    u: "Unref ?h p = OK h'" and
    hi: "heap_inv leak ((holders w)(p := holders w p - 1)) h'" and
    other: "\<forall>q. q \<noteq> p \<longrightarrow> deref h' q = deref ?h q" and
    self: "\<forall>f'. deref h' p = Some f' \<longrightarrow> (\<exists>f. deref ?h p = Some f \<and> f' = f\<lparr>m_refs := m_refs f - 1\<rparr>)"
    by blast
  let ?s' = "\<lparr>fs_heap = h', m_file_map = map_erase ?m fname\<rparr>"
  let ?w' = "w\<lparr>w_env := ?s'\<rparr>"
  have run: "DeleteFileInternal (w_env w) fname = OK ?s'"
    using present u by (simp add: DeleteFileInternal_def)
  have hold': "holders ?w' = (holders w)(p := holders w p - 1)"
  proof
    fix q
    from count_values_erase [OF I(1) present, of q]
    show "holders ?w' q = ((holders w)(p := holders w p - 1)) q"
      by (auto simp: holders_def)
  qed
  have ro: "refs_only ?h h'"
    unfolding refs_only_def
  proof (intro allI impI)
    fix q f' assume d: "deref h' q = Some f'"
    show "\<exists>f. deref ?h q = Some f \<and> m_blocks f' = m_blocks f \<and> m_size f' = m_size f"
    proof (cases "q = p")
      case True
      with d self show ?thesis by auto
    next
      case False
      with d other show ?thesis by auto
    qed
  qed
  have dv: "distinct (map snd (map_erase ?m fname))"
    using I(2) by (simp add: map_erase_def distinct_map_filter)
  have hi': "heap_inv leak (holders ?w') h'"
    using hi by (simp only: hold')
  have "world_inv leak ?w'"
    unfolding world_inv_def
    using sorted_map_erase [OF I(1), of fname] dv hi' refs_only_cursors [OF ro I(4)]
    by simp
  with run ro other self show ?thesis by blast
qed

lemma DeleteFileInternal_absent:
  "map_of (m_file_map s) fname = None \<Longrightarrow> DeleteFileInternal s fname = OK s"
  by (simp add: DeleteFileInternal_def)


lemma Ref_new:
  "Ref (h @ [Some f]) (Suc (length h)) = OK (h @ [Some (f\<lparr>m_refs := m_refs f + 1\<rparr>)])"
  by (simp add: Ref_def deref_append heap_put_def)

lemma holders_views_absent:
  assumes "holders w p = 0" "v \<in> set (live_views (w_views w))"
  shows "m_file v \<noteq> p"
proof
  assume "m_file v = p"
  with assms(2) have "p \<in> set (map m_file (live_views (w_views w)))" by auto
  then have "count_list (map m_file (live_views (w_views w))) p \<noteq> 0"
    by (simp add: count_list_0_iff)
  with assms(1) show False by (simp add: holders_def)
qed

lemma create_file_inv:
  assumes inv: "world_inv leak w" and absent: "map_of (m_file_map (w_env w)) fname = None"
  defines "p \<equiv> length (fs_heap (w_env w)) + 1"
  defines "s' \<equiv> \<lparr>fs_heap = fs_heap (w_env w) @ [Some (FileState_new\<lparr>m_refs := 2\<rparr>)],
                  m_file_map = map_assign (m_file_map (w_env w)) fname p\<rparr>"
  shows "(let (file, h1) = new_FileState (fs_heap (w_env w))
          in and_then (Ref h1 file)
               (\<lambda>h2. and_then (WritableFileImpl_new h2 file)
                  (\<lambda>(v, h3). OK (v, \<lparr>fs_heap = h3,
                                     m_file_map = map_assign (m_file_map (w_env w)) fname file\<rparr>))))
           = OK (WritableFileImpl p, s')"
    and "world_inv leak \<lparr>w_env = s', w_views = w_views w @ [Some (WritableFileImpl p)]\<rparr>"
proof -
  let ?m = "m_file_map (w_env w)"
  let ?h = "fs_heap (w_env w)"
  let ?w' = "\<lparr>w_env = s', w_views = w_views w @ [Some (WritableFileImpl p)]\<rparr>"
  note I = world_invD [OF inv]
  show "(let (file, h1) = new_FileState ?h
          in and_then (Ref h1 file)
               (\<lambda>h2. and_then (WritableFileImpl_new h2 file)
                  (\<lambda>(v, h3). OK (v, \<lparr>fs_heap = h3, m_file_map = map_assign ?m fname file\<rparr>))))
           = OK (WritableFileImpl p, s')"
    unfolding p_def s'_def
    by (simp add: new_FileState_def Ref_new WritableFileImpl_new_def FileState_new_def)
  from new_heap_inv [OF I(3)] have
    fresh: "holders w p = 0" and
    hi: "heap_inv leak ((holders w)(p := 2)) (?h @ [Some (FileState_new\<lparr>m_refs := 2\<rparr>)])"
    unfolding p_def by simp_all
  have cnt: "count_list (map snd ?m) p = 0" "count_list (map m_file (live_views (w_views w))) p = 0"
    using fresh by (simp_all add: holders_def)
  have hold': "holders ?w' = (holders w)(p := 2)"
  proof
    fix q
    show "holders ?w' q = ((holders w)(p := 2)) q"
      using cnt count_values_assign [OF absent, of p q]
      by (simp add: holders_def s'_def)
  qed
  have hi': "heap_inv leak (holders ?w') (fs_heap (w_env ?w'))"
    using hi by (simp add: hold') (simp add: s'_def)
  have st: "sorted_wrt (<) (map fst (m_file_map (w_env ?w')))"
    using sorted_map_assign [OF I(1)] by (simp add: s'_def)
  have dv: "distinct (map snd (m_file_map (w_env ?w')))"
    unfolding distinct_count_list
  proof
    fix q
    have "count_list (map snd ?m) q \<le> 1"
      using I(2) by (simp add: distinct_count_list)
    with cnt(1) show "count_list (map snd (m_file_map (w_env ?w'))) q \<le> 1"
      using count_values_assign [OF absent, of p q] by (auto simp: s'_def)
  qed
  have old: "list_all (cursor_ok (fs_heap (w_env ?w'))) (live_views (w_views w))"
    using I(4)
  proof (rule cursors_preserved)
    fix v f'
    assume v: "v \<in> set (live_views (w_views w))"
      and d: "deref (fs_heap (w_env ?w')) (m_file v) = Some f'"
    have "m_file v \<noteq> p" by (rule holders_views_absent [OF fresh v])
    with d have "deref ?h (m_file v) = Some f'"
      by (simp add: s'_def deref_append p_def)
    then show "\<exists>f. deref ?h (m_file v) = Some f \<and> m_size f \<le> m_size f'" by simp
  qed
  have cur: "list_all (cursor_ok (fs_heap (w_env ?w'))) (live_views (w_views ?w'))"
    using old by simp
  from st dv hi' cur show "world_inv leak ?w'"
    unfolding world_inv_def by blast
qed


lemma world_env_same [simp]: "w\<lparr>w_env := w_env w\<rparr> = w"
  by simp

lemma NewWritableFile_inv:
  assumes inv: "world_inv leak w"
  shows "\<exists>v s'. NewWritableFile (w_env w) fname = OK (v, s') \<and>
           world_inv leak \<lparr>w_env = s', w_views = w_views w @ [Some v]\<rparr>"
proof -
  let ?m = "m_file_map (w_env w)"
  obtain s1 where
    first: "(if map_of ?m fname \<noteq> None then DeleteFileInternal (w_env w) fname else OK (w_env w)) = OK s1" and
    inv1: "world_inv leak (w\<lparr>w_env := s1\<rparr>)" and
    absent: "map_of (m_file_map s1) fname = None"
  proof (cases "map_of ?m fname")
    case None
    with inv that [of "w_env w"] show ?thesis by simp
  next
    case (Some p0)
    from DeleteFileInternal_present [OF inv Some] obtain h' where
      "DeleteFileInternal (w_env w) fname = OK \<lparr>fs_heap = h', m_file_map = map_erase ?m fname\<rparr>"
      "world_inv leak (w\<lparr>w_env := \<lparr>fs_heap = h', m_file_map = map_erase ?m fname\<rparr>\<rparr>)"
      by blast
    with Some that [of "\<lparr>fs_heap = h', m_file_map = map_erase ?m fname\<rparr>"] show ?thesis
      by (simp add: map_of_map_erase)
  qed
  let ?w1 = "w\<lparr>w_env := s1\<rparr>"
  have absent1: "map_of (m_file_map (w_env ?w1)) fname = None" using absent by simp
  note c = create_file_inv [OF inv1 absent1]
  have "NewWritableFile (w_env w) fname =
          OK (WritableFileImpl (length (fs_heap s1) + 1),
              \<lparr>fs_heap = fs_heap s1 @ [Some (FileState_new\<lparr>m_refs := 2\<rparr>)],
                 m_file_map = map_assign (m_file_map s1) fname (length (fs_heap s1) + 1)\<rparr>)"
    unfolding NewWritableFile_def first using c(1) by simp
  with c(2) show ?thesis by simp
qed

lemma holders_view_positive:
  assumes "view_at w i = Some v"
  shows "0 < holders w (m_file v)"
proof -
  from assms have "i < length (w_views w)" "w_views w ! i = Some v"
    by (auto simp: view_at_def split: if_splits)
  then have "v \<in> set (live_views (w_views w))" by (rule live_views_member)
  then have "m_file v \<in> set (map m_file (live_views (w_views w)))" by auto
  then have "count_list (map m_file (live_views (w_views w))) (m_file v) \<noteq> 0"
    by (simp add: count_list_0_iff)
  then show ?thesis by (simp add: holders_def)
qed

lemma open_existing_inv:
  assumes inv: "world_inv leak w" and present: "map_of (m_file_map (w_env w)) fname = Some p"
    and v: "v = SequentialFileImpl p 0 \<or> v = RandomAccessFileImpl p"
  shows "\<exists>h'. Ref (fs_heap (w_env w)) p = OK h' \<and>
           world_inv leak \<lparr>w_env = (w_env w)\<lparr>fs_heap := h'\<rparr>, w_views = w_views w @ [Some v]\<rparr>"
proof -
  let ?h = "fs_heap (w_env w)"
  note I = world_invD [OF inv]
  have held: "0 < holders w p"
    using map_of_value_counted [OF present] by (simp add: holders_def)
  from Ref_heap_inv [OF I(3) held] obtain h' f where
    r: "Ref ?h p = OK h'" and
    hi: "heap_inv leak ((holders w)(p := holders w p + 1)) h'" and
    other: "\<forall>q. q \<noteq> p \<longrightarrow> deref h' q = deref ?h q" and
    f: "deref ?h p = Some f" "deref h' p = Some (f\<lparr>m_refs := m_refs f + 1\<rparr>)"
    by blast
  let ?w' = "\<lparr>w_env = (w_env w)\<lparr>fs_heap := h'\<rparr>, w_views = w_views w @ [Some v]\<rparr>"
  have fv: "m_file v = p" using v by auto
  have hold': "holders ?w' = (holders w)(p := holders w p + 1)"
    using fv by (auto simp: holders_def fun_eq_iff)
  have ro: "refs_only ?h h'"
    unfolding refs_only_def
  proof (intro allI impI)
    fix q g' assume d: "deref h' q = Some g'"
    show "\<exists>g. deref ?h q = Some g \<and> m_blocks g' = m_blocks g \<and> m_size g' = m_size g"
      using d f other by (cases "q = p") auto
  qed
  have hi': "heap_inv leak (holders ?w') (fs_heap (w_env ?w'))"
    using hi by (simp add: hold')
  have "cursor_ok h' v" using v f by auto
  then have cur: "list_all (cursor_ok (fs_heap (w_env ?w'))) (live_views (w_views ?w'))"
    using refs_only_cursors [OF ro I(4)] by simp
  have "world_inv leak ?w'"
    unfolding world_inv_def using I(1,2) hi' cur by simp
  with r show ?thesis by blast
qed

lemma delete_view_inv:
  assumes inv: "world_inv leak w" and v: "view_at w i = Some v"
  shows "\<exists>h'. view_delete (fs_heap (w_env w)) v = OK h' \<and>
           world_inv leak (with_view (with_heap w h') i None)"
proof -
  let ?h = "fs_heap (w_env w)"
  let ?p = "m_file v"
  note I = world_invD [OF inv]
  from v have i: "i < length (w_views w)" "w_views w ! i = Some v"
    by (auto simp: view_at_def split: if_splits)
  have held: "0 < holders w ?p" by (rule holders_view_positive [OF v])
  from Unref_heap_inv [OF I(3) held] obtain h' where
    u: "Unref ?h ?p = OK h'" and
    hi: "heap_inv leak ((holders w)(?p := holders w ?p - 1)) h'" and
    other: "\<forall>q. q \<noteq> ?p \<longrightarrow> deref h' q = deref ?h q" and
    self: "\<forall>f'. deref h' ?p = Some f' \<longrightarrow> (\<exists>f. deref ?h ?p = Some f \<and> f' = f\<lparr>m_refs := m_refs f - 1\<rparr>)"
    by blast
  let ?w' = "with_view (with_heap w h') i None"
  have hold': "holders ?w' = (holders w)(?p := holders w ?p - 1)"
  proof
    fix q
    from live_views_delete [OF i, of m_file q]
    show "holders ?w' q = ((holders w)(?p := holders w ?p - 1)) q"
      by (auto simp: holders_def with_view_def with_heap_def)
  qed
  have ro: "refs_only ?h h'"
    unfolding refs_only_def
  proof (intro allI impI)
    fix q g' assume d: "deref h' q = Some g'"
    show "\<exists>g. deref ?h q = Some g \<and> m_blocks g' = m_blocks g \<and> m_size g' = m_size g"
      using d self other by (cases "q = ?p") auto
  qed
  have hi': "heap_inv leak (holders ?w') (fs_heap (w_env ?w'))"
    using hi by (simp add: hold') (simp add: with_view_def with_heap_def)
  have "list_all (cursor_ok h') (live_views (w_views w))"
    by (rule refs_only_cursors [OF ro I(4)])
  then have cur: "list_all (cursor_ok (fs_heap (w_env ?w'))) (live_views (w_views ?w'))"
    using live_views_delete_subset [of "w_views w" i]
    by (auto simp: list_all_iff with_view_def with_heap_def)
  have "world_inv leak ?w'"
    unfolding world_inv_def using I(1,2) hi' cur
    by (simp add: with_view_def with_heap_def)
  with u show ?thesis by (simp add: view_delete_def)
qed


lemma Appends_capacity:
  assumes "capacity_ok f"
  shows "\<exists>f'. Appends f ds = OK f' \<and> capacity_ok f' \<and> m_refs f' = m_refs f \<and>
           m_size f' = m_size f + length (concat ds) \<and> (tail_used f \<longrightarrow> tail_used f')"
  using assms
proof (induction ds arbitrary: f)
  case Nil
  then show ?case by simp
next
  case (Cons d ds)
  from AppendRaw_correct [OF Cons.prems, of "map Some d"] obtain f1 where
    a: "Append f d = OK f1" and cap1: "capacity_ok f1" and r1: "m_refs f1 = m_refs f" and
    s1: "m_size f1 = m_size f + length d" and tu1: "tail_used f \<longrightarrow> tail_used f1"
    unfolding Append_def by auto
  from Cons.IH [OF cap1] obtain f' where
    "Appends f1 ds = OK f'" "capacity_ok f'" "m_refs f' = m_refs f1"
    "m_size f' = m_size f1 + length (concat ds)" "tail_used f1 \<longrightarrow> tail_used f'"
    by blast
  with a r1 s1 tu1 show ?case by auto
qed

lemma file_update_inv:
  assumes inv: "world_inv leak w" and f: "deref (fs_heap (w_env w)) p = Some f"
    and refs: "m_refs f' = m_refs f" and cap: "capacity_ok f'" and grow: "m_size f \<le> m_size f'"
  shows "world_inv leak (with_heap w (heap_put (fs_heap (w_env w)) p (Some f')))"
proof -
  let ?h = "fs_heap (w_env w)"
  let ?h' = "heap_put ?h p (Some f')"
  note I = world_invD [OF inv]
  have hold: "holders (with_heap w ?h') = holders w"
    by (simp add: holders_def with_heap_def fun_eq_iff)
  have hi: "heap_inv leak (holders w) ?h'"
    by (rule update_heap_inv [OF I(3) f refs cap])
  have cur: "list_all (cursor_ok ?h') (live_views (w_views w))"
    using I(4)
  proof (rule cursors_preserved)
    fix v g' assume d: "deref ?h' (m_file v) = Some g'"
    show "\<exists>g. deref ?h (m_file v) = Some g \<and> m_size g \<le> m_size g'"
      using d f grow by (cases "m_file v = p") (auto simp: deref_heap_put)
  qed
  show ?thesis
    unfolding world_inv_def using I(1,2) hi cur
    by (simp add: hold) (simp add: with_heap_def)
qed

lemma view_file_live:
  assumes inv: "world_inv leak w" and v: "view_at w i = Some v"
  obtains f where "deref (fs_heap (w_env w)) (m_file v) = Some f" "capacity_ok f"
  using heap_inv_live [OF world_invD(3) [OF inv] holders_view_positive [OF v]] by blast

lemma with_heap_same [simp]: "with_heap w (fs_heap (w_env w)) = w"
  by (simp add: with_heap_def)

lemma write_view_inv:
  assumes inv: "world_inv leak w" and v: "view_at w i = Some v"
    and run: "WritableFile_Append (fs_heap (w_env w)) v data = OK h' \<or>
              WritableFile_AppendVector (fs_heap (w_env w)) v data_vector = OK h' \<or>
              WritableFile_PreAllocate (fs_heap (w_env w)) v sz a = OK h'"
  shows "world_inv leak (with_heap w h')"
proof -
  obtain p where w: "v = WritableFileImpl p"
    using run by (cases v) auto
  let ?h = "fs_heap (w_env w)"
  from view_file_live [OF inv v] obtain f where
    f: "deref ?h (m_file v) = Some f" and cap: "capacity_ok f"
    by blast
  with w have fp: "deref ?h p = Some f" by simp
  from AppendRaw_correct [OF cap, of "map Some data"] obtain f1 where
    1: "Append f data = OK f1" "capacity_ok f1" "m_refs f1 = m_refs f" "m_size f \<le> m_size f1"
    unfolding Append_def by auto
  from Appends_capacity [OF cap, of data_vector] obtain f2 where
    2: "Appends f data_vector = OK f2" "capacity_ok f2" "m_refs f2 = m_refs f" "m_size f \<le> m_size f2"
    by auto
  from run w fp 1(1) 2(1) have
    "h' = heap_put ?h p (Some f1) \<or> h' = heap_put ?h p (Some f2) \<or>
     (\<exists>f3. PreAllocate f sz a = OK f3 \<and> h' = heap_put ?h p (Some f3))"
    by (auto simp: update_file_live AppendVector_Appends dest: and_then_eq_OK)
  moreover have "world_inv leak (with_heap w (heap_put ?h p (Some f3)))"
    if "PreAllocate f sz a = OK f3" for f3
  proof -
    from PreAllocate_OK [OF cap that]
    have "m_refs f3 = m_refs f" "capacity_ok f3" "m_size f \<le> m_size f3"
      by simp_all
    then show ?thesis by (rule file_update_inv [OF inv fp])
  qed
  ultimately show ?thesis
    using file_update_inv [OF inv fp 1(3,2,4)] file_update_inv [OF inv fp 2(3,2,4)]
    by auto
qed

lemma Read_advances_within:
  assumes "Read f pos n scratch = OK (result, scratch')"
  shows "pos + slice_size result \<le> m_size f"
  using assms
  by (auto simp: Read_def Let_def and_then_def split: if_splits status.splits)

lemma cursor_view_inv:
  assumes inv: "world_inv leak w" and v: "view_at w i = Some v"
    and same: "m_file v' = m_file v" and ok: "cursor_ok (fs_heap (w_env w)) v'"
  shows "world_inv leak (with_view w i (Some v'))"
proof -
  note I = world_invD [OF inv]
  from v have i: "i < length (w_views w)" "w_views w ! i = Some v"
    by (auto simp: view_at_def split: if_splits)
  have hold: "holders (with_view w i (Some v')) = holders w"
    using live_views_replace [OF i, of m_file v'] same
    by (simp add: holders_def with_view_def fun_eq_iff)
  have cur: "list_all (cursor_ok (fs_heap (w_env w))) (live_views ((w_views w)[i := Some v']))"
    using I(4) ok live_views_replace_set [OF i(1), of v']
    by (auto simp: list_all_iff)
  show ?thesis
    unfolding world_inv_def using I(1,2,3) cur
    by (simp add: hold) (simp add: with_view_def)
qed

lemma sequential_view_inv:
  assumes inv: "world_inv leak w" and v: "view_at w i = Some v"
    and run: "SequentialFile_Read (fs_heap (w_env w)) v n scratch = OK (result, scratch', v') \<or>
              SequentialFile_Skip (fs_heap (w_env w)) v k = OK v'"
  shows "world_inv leak (with_view w i (Some v'))"
proof -
  let ?h = "fs_heap (w_env w)"
  from view_file_live [OF inv v] obtain f where f: "deref ?h (m_file v) = Some f"
    by blast
  obtain p pos where sv: "v = SequentialFileImpl p pos"
    using run by (cases v) auto
  with f have fp: "deref ?h p = Some f" by simp
  from run sv fp obtain pos' where v': "v' = SequentialFileImpl p pos'" and le: "pos' \<le> m_size f"
    by (auto simp: Size_def Let_def and_then_def split: if_splits status.splits
        dest: Read_advances_within)
  show ?thesis
    using cursor_view_inv [OF inv v, of v'] sv v' le fp by simp
qed


lemma map_only_inv:
  assumes inv: "world_inv leak w"
    and sorted: "sorted_wrt (<) (map fst m')"
    and same: "\<And>q. count_list (map snd m') q = count_list (map snd (m_file_map (w_env w))) q"
  shows "world_inv leak (w\<lparr>w_env := (w_env w)\<lparr>m_file_map := m'\<rparr>\<rparr>)"
proof -
  let ?w' = "w\<lparr>w_env := (w_env w)\<lparr>m_file_map := m'\<rparr>\<rparr>"
  note I = world_invD [OF inv]
  have hold: "holders ?w' = holders w"
    by (simp add: holders_def same fun_eq_iff)
  have dv: "distinct (map snd m')"
    using I(2) by (simp add: distinct_count_list same)
  show ?thesis
    unfolding world_inv_def using sorted dv I(3,4) by (simp add: hold)
qed

lemma RenameFile_inv:
  assumes inv: "world_inv leak w" and present: "map_of (m_file_map (w_env w)) src = Some p"
  shows "\<exists>s'. RenameFile (w_env w) src target = OK s' \<and> world_inv leak (w\<lparr>w_env := s'\<rparr>)"
proof -
  let ?m = "m_file_map (w_env w)"
  obtain s1 where
    del: "DeleteFileInternal (w_env w) target = OK s1" and
    inv1: "world_inv leak (w\<lparr>w_env := s1\<rparr>)" and
    m1: "m_file_map s1 = map_erase ?m target"
  proof (cases "map_of ?m target")
    case None
    with inv that [of "w_env w"] show ?thesis
      by (simp add: DeleteFileInternal_absent map_erase_absent)
  next
    case (Some old)
    from DeleteFileInternal_present [OF inv Some] that show ?thesis by fastforce
  qed
  let ?m1 = "m_file_map s1"
  let ?w1 = "w\<lparr>w_env := s1\<rparr>"
  note I1 = world_invD [OF inv1]
  have absent: "map_of ?m1 target = None"
    by (simp add: m1 map_of_map_erase)
  show ?thesis
  proof (cases "src = target")
    case True
    have "map_erase (map_assign (map_assign ?m1 src NULL) src NULL) src = ?m1"
      using absent True by (simp add: map_assign_twice map_erase_assign_absent)
    then have "RenameFile (w_env w) src target = OK s1"
      using present del absent True by (simp add: RenameFile_def map_index_def)
    with inv1 show ?thesis by blast
  next
    case False
    have src1: "map_of ?m1 src = Some p"
      using present False by (simp add: m1 map_of_map_erase)
    let ?m2 = "map_assign ?m1 target p"
    let ?m3 = "map_erase ?m2 src"
    have run: "RenameFile (w_env w) src target = OK (s1\<lparr>m_file_map := ?m3\<rparr>)"
      using present del src1 by (simp add: RenameFile_def map_index_def)
    have s2: "sorted_wrt (<) (map fst ?m2)"
      using I1(1) by (simp add: sorted_map_assign)
    have src2: "map_of ?m2 src = Some p"
      using src1 False by (simp add: map_of_map_assign)
    have s3: "sorted_wrt (<) (map fst ?m3)"
      by (rule sorted_map_erase [OF s2])
    have cnt: "count_list (map snd ?m3) q = count_list (map snd (m_file_map (w_env ?w1))) q" for q
      using count_values_erase [OF s2 src2, of q] count_values_assign [OF absent, of p q]
      by simp
    from map_only_inv [OF inv1 s3 cnt] have "world_inv leak (w\<lparr>w_env := s1\<lparr>m_file_map := ?m3\<rparr>\<rparr>)"
      by simp
    with run show ?thesis by blast
  qed
qed

lemma sorted_keys_filter:
  "sorted_wrt (<) (map fst m) \<Longrightarrow> sorted_wrt (<) (map fst (filter P m))"
  by (induction m) auto

lemma count_list_filter_le: "count_list (map g (filter P xs)) q \<le> count_list (map g xs) q"
  by (induction xs) auto

lemma DeleteRecursively_inv:
  assumes inv: "world_inv leak w" and run: "DeleteRecursively (w_env w) dirname = OK s'"
  shows "\<exists>leak'. world_inv leak' (w\<lparr>w_env := s'\<rparr>)"
proof -
  let ?m = "m_file_map (w_env w)"
  let ?h = "fs_heap (w_env w)"
  note I = world_invD [OF inv]
  from run obtain dir where
    s': "s' = (w_env w)\<lparr>m_file_map := filter (\<lambda>e. \<not> prefix dir (fst e)) ?m\<rparr>"
    by (auto simp: DeleteRecursively_def DeleteRecursively_loop_filter Let_def split: if_splits)
  let ?m' = "filter (\<lambda>e. \<not> prefix dir (fst e)) ?m"
  let ?w' = "w\<lparr>w_env := s'\<rparr>"
  let ?gone = "\<lambda>q. count_list (map snd ?m) q - count_list (map snd ?m') q"
  let ?leak' = "\<lambda>q. leak q + ?gone q"
  have le: "count_list (map snd ?m') q \<le> count_list (map snd ?m) q" for q
    by (rule count_list_filter_le)
  have hold: "holders ?w' q + ?gone q = holders w q" for q
    using le [of q] by (simp add: holders_def s')
  have hi: "heap_inv ?leak' (holders ?w') ?h"
    unfolding heap_inv_def
  proof
    fix q
    show "case deref ?h q of
            None \<Rightarrow> holders ?w' q = 0 \<and> ?leak' q = 0
          | Some f \<Rightarrow> m_refs f = int (holders ?w' q) + int (?leak' q) \<and> 1 \<le> m_refs f \<and> capacity_ok f"
      using heap_invD [OF I(3), of q] hold [of q]
      by (auto split: option.splits)
  qed
  have "world_inv ?leak' ?w'"
    unfolding world_inv_def
    using sorted_keys_filter [OF I(1)] I(2,4) hi by (simp add: s' distinct_map_filter)
  then show ?thesis by blast
qed

lemma world_inv_init: "world_inv (\<lambda>p. 0) world_init"
  by (simp add: world_inv_def world_init_def NewMemEnv_def heap_inv_def holders_def deref_def NULL_def)


lemma on_view_eq_OK:
  "on_view w i m = OK w' \<Longrightarrow> \<exists>v. view_at w i = Some v \<and> m (fs_heap (w_env w)) v = OK w'"
  by (auto simp: on_view_def split: option.splits)

lemma exec_inv_same_leak:
  assumes inv: "world_inv leak w" and run: "exec w x = OK w'" and x: "\<not> is_DeleteRecursively x"
  shows "world_inv leak w'"
proof (cases x)
  case (Op_NewWritableFile fname)
  from NewWritableFile_inv [OF inv, of fname] run Op_NewWritableFile show ?thesis
    by (auto simp: open_view_def)
next
  case (Op_NewSequentialFile fname)
  with run obtain p where present: "map_of (m_file_map (w_env w)) fname = Some p"
    by (cases "map_of (m_file_map (w_env w)) fname") (auto simp: open_view_def NewSequentialFile_def)
  from open_existing_inv [OF inv present, of "SequentialFileImpl p 0"] run Op_NewSequentialFile present
  show ?thesis
    by (auto simp: open_view_def NewSequentialFile_def SequentialFileImpl_new_def)
next
  case (Op_NewRandomAccessFile fname)
  with run obtain p where present: "map_of (m_file_map (w_env w)) fname = Some p"
    by (cases "map_of (m_file_map (w_env w)) fname") (auto simp: open_view_def NewRandomAccessFile_def)
  from open_existing_inv [OF inv present, of "RandomAccessFileImpl p"] run Op_NewRandomAccessFile present
  show ?thesis
    by (auto simp: open_view_def NewRandomAccessFile_def RandomAccessFileImpl_new_def)
next
  case (Op_delete i)
  with run obtain v where v: "view_at w i = Some v" and
    r: "and_then (view_delete (fs_heap (w_env w)) v) (\<lambda>h'. OK (with_view (with_heap w h') i None)) = OK w'"
    by (auto dest: on_view_eq_OK)
  from delete_view_inv [OF inv v] r show ?thesis by auto
next
  case (Op_Append i data)
  with run obtain v where v: "view_at w i = Some v" and
    r: "and_then (WritableFile_Append (fs_heap (w_env w)) v data) (\<lambda>h'. OK (with_heap w h')) = OK w'"
    by (auto dest: on_view_eq_OK)
  from and_then_eq_OK [OF r] obtain h' where
    "WritableFile_Append (fs_heap (w_env w)) v data = OK h'" "w' = with_heap w h'" by auto
  with write_view_inv [OF inv v, of data h'] show ?thesis by simp
next
  case (Op_AppendVector i data_vector)
  with run obtain v where v: "view_at w i = Some v" and
    r: "and_then (WritableFile_AppendVector (fs_heap (w_env w)) v data_vector) (\<lambda>h'. OK (with_heap w h')) = OK w'"
    by (auto dest: on_view_eq_OK)
  from and_then_eq_OK [OF r] obtain h' where
    "WritableFile_AppendVector (fs_heap (w_env w)) v data_vector = OK h'" "w' = with_heap w h'" by auto
  with write_view_inv [OF inv v, of _ h' data_vector] show ?thesis by simp
next
  case (Op_PreAllocate i sz a)
  with run obtain v where v: "view_at w i = Some v" and
    r: "and_then (WritableFile_PreAllocate (fs_heap (w_env w)) v sz a) (\<lambda>h'. OK (with_heap w h')) = OK w'"
    by (auto dest: on_view_eq_OK)
  from and_then_eq_OK [OF r] obtain h' where
    "WritableFile_PreAllocate (fs_heap (w_env w)) v sz a = OK h'" "w' = with_heap w h'" by auto
  with write_view_inv [OF inv v, of _ h' _ sz a] show ?thesis by simp
next
  case (Op_Read i n scratch)
  with run obtain v where v: "view_at w i = Some v" and
    r: "and_then (SequentialFile_Read (fs_heap (w_env w)) v n scratch)
          (\<lambda>(result, scratch', v'). OK (with_view w i (Some v'))) = OK w'"
    by (auto dest: on_view_eq_OK)
  from and_then_eq_OK [OF r] obtain result scratch' v' where
    "SequentialFile_Read (fs_heap (w_env w)) v n scratch = OK (result, scratch', v')"
    "w' = with_view w i (Some v')" by auto
  with sequential_view_inv [OF inv v, of n scratch result scratch' v'] show ?thesis by simp
next
  case (Op_Skip i n)
  with run obtain v where v: "view_at w i = Some v" and
    r: "and_then (SequentialFile_Skip (fs_heap (w_env w)) v n) (\<lambda>v'. OK (with_view w i (Some v'))) = OK w'"
    by (auto dest: on_view_eq_OK)
  from and_then_eq_OK [OF r] obtain v' where
    "SequentialFile_Skip (fs_heap (w_env w)) v n = OK v'" "w' = with_view w i (Some v')" by auto
  with sequential_view_inv [OF inv v, of _ _ _ _ v' n] show ?thesis by simp
next
  case (Op_RandomRead i offset n scratch)
  with run have "w' = w"
    by (auto dest!: on_view_eq_OK and_then_eq_OK)
  with inv show ?thesis by simp
next
  case (Op_DeleteFile fname)
  with run obtain p where present: "map_of (m_file_map (w_env w)) fname = Some p"
    by (cases "map_of (m_file_map (w_env w)) fname") (auto simp: DeleteFile_def)
  from DeleteFileInternal_present [OF inv present] run Op_DeleteFile present show ?thesis
    by (auto simp: DeleteFile_def)
next
  case (Op_RenameFile src target)
  with run obtain p where present: "map_of (m_file_map (w_env w)) src = Some p"
    by (cases "map_of (m_file_map (w_env w)) src") (auto simp: RenameFile_def)
  from RenameFile_inv [OF inv present, of target] run Op_RenameFile show ?thesis
    by auto
next
  case (Op_DeleteRecursively dirname)
  with x show ?thesis by simp
qed

lemma exec_inv:
  assumes inv: "world_inv leak w" and run: "exec w x = OK w'"
  shows "\<exists>leak'. world_inv leak' w' \<and> (\<not> is_DeleteRecursively x \<longrightarrow> leak' = leak)"
proof (cases "is_DeleteRecursively x")
  case False
  with exec_inv_same_leak [OF inv run] show ?thesis by blast
next
  case True
  then obtain dirname where x: "x = Op_DeleteRecursively dirname" by (cases x) auto
  with run obtain s' where "DeleteRecursively (w_env w) dirname = OK s'" "w' = w\<lparr>w_env := s'\<rparr>"
    by (auto dest: and_then_eq_OK)
  with DeleteRecursively_inv [OF inv] True show ?thesis by blast
qed

lemma run_inv:
  assumes "world_inv leak w" "run w ops = OK w'"
  shows "\<exists>leak'. world_inv leak' w' \<and> (\<not> list_ex is_DeleteRecursively ops \<longrightarrow> leak' = leak)"
  using assms
proof (induction ops arbitrary: w leak)
  case Nil
  then show ?case by auto
next
  case (Cons x ops)
  show ?case
  proof (cases "exec w x")
    case (OK w1)
    from exec_inv [OF Cons.prems(1) OK] obtain leak1 where
      1: "world_inv leak1 w1" "\<not> is_DeleteRecursively x \<longrightarrow> leak1 = leak" by blast
    from Cons.prems(2) OK have "run w1 ops = OK w'" by simp
    from Cons.IH [OF 1(1) this] 1(2) show ?thesis by auto
  next
    case (IOError a b)
    with Cons.prems(2) have "run w ops = OK w'" by simp
    from Cons.IH [OF Cons.prems(1) this] show ?thesis by auto
  next
    case Fault
    with Cons.prems(2) show ?thesis by simp
  qed
qed

lemma reachable_rename_conditions:
  assumes "run world_init ops = OK w"
    and "map_of (m_file_map (w_env w)) src = Some p"
  shows "\<exists>f. deref (fs_heap (w_env w)) p = Some f"
    and "\<forall>old. src \<noteq> target \<and> map_of (m_file_map (w_env w)) target = Some old \<longrightarrow>
           old \<noteq> p \<and> (\<exists>g. deref (fs_heap (w_env w)) old = Some g \<and> 1 \<le> m_refs g)"
proof -
  let ?m = "m_file_map (w_env w)"
  from run_inv [OF world_inv_init assms(1)] obtain leak where inv: "world_inv leak w"
    by blast
  note I = world_invD [OF inv]
  have live: "\<exists>g. deref (fs_heap (w_env w)) q = Some g \<and> 1 \<le> m_refs g"
    if "map_of ?m k = Some q" for k q
  proof -
    have "0 < holders w q"
      using map_of_value_counted [OF that] by (simp add: holders_def)
    from heap_inv_live [OF I(3) this] obtain g where g: "deref (fs_heap (w_env w)) q = Some g"
      by blast
    with heap_invD [OF I(3), of q] show ?thesis by simp
  qed
  from live [OF assms(2)] show "\<exists>f. deref (fs_heap (w_env w)) p = Some f" by blast
  show "\<forall>old. src \<noteq> target \<and> map_of ?m target = Some old \<longrightarrow>
           old \<noteq> p \<and> (\<exists>g. deref (fs_heap (w_env w)) old = Some g \<and> 1 \<le> m_refs g)"
  proof (intro allI impI)
    fix old assume a: "src \<noteq> target \<and> map_of ?m target = Some old"
    have "old \<noteq> p"
    proof
      assume "old = p"
      with a assms(2) have mem: "(src, p) \<in> set ?m" "(target, p) \<in> set ?m"
        by (auto dest: map_of_SomeD)
      have "inj_on snd (set ?m)"
        using I(2) by (simp add: distinct_map)
      from inj_onD [OF this _ mem] have "src = target" by simp
      with a show False by simp
    qed
    with live a show "old \<noteq> p \<and> (\<exists>g. deref (fs_heap (w_env w)) old = Some g \<and> 1 \<le> m_refs g)"
      by blast
  qed
qed

text \<open>The definitions that evaluate a sequence of calls on given arguments.\<close>

lemmas eval_defs =
  open_view_def on_view_def view_at_def with_heap_def with_view_def world_init_def NewMemEnv_def
  NewWritableFile_def NewSequentialFile_def NewRandomAccessFile_def DeleteFile_def
  DeleteFileInternal_def RenameFile_def DeleteRecursively_def map_erase_def map_index_def
  new_FileState_def FileState_new_def Ref_def Unref_def deref_def NULL_def heap_put_def
  SequentialFileImpl_new_def RandomAccessFileImpl_new_def WritableFileImpl_new_def
  view_delete_def update_file_def Append_def PreAllocate_def memset_first_byte_def
  AppendRaw.simps kBlockSize_def Size_def Let_def

text \<open>
  \<^verbatim>\<open>PreAllocate\<close> through a writable view: with the padding at an address that is not a
  multiple of 256 the execution is a \<open>Fault\<close>; at a multiple of 256 the call returns and
  the file has one block and size 0.
\<close>

lemma Op_PreAllocate_example:
  "run world_init [Op_NewWritableFile ''/a'', Op_PreAllocate 0 1 0x7F3A5C001010] = Fault \<and>
   run world_init [Op_NewWritableFile ''/a'', Op_PreAllocate 0 1 0x7F3A5C001000] =
     OK \<lparr>w_env = \<lparr>fs_heap = [Some \<lparr>m_refs = 2, m_blocks = [memcpy_block new_block 0 [None] 1],
                                     m_size = 0\<rparr>],
                   m_file_map = [(''/a'', 1)]\<rparr>,
         w_views = [Some (WritableFileImpl 1)]\<rparr>"
  by (simp add: eval_defs)

subsection \<open>Renaming\<close>

text \<open>
  Claim C6, as amended.  \<^verbatim>\<open>RenameFile(src, target)\<close> returns the \<^verbatim>\<open>IOError\<close> status
  "File not found" when \<open>src\<close> is not in the map (and has changed nothing).  Otherwise,
  for \<open>src \<noteq> target\<close>, in the state after any sequence of calls on a new environment:
  the call returns \<^verbatim>\<open>OK\<close>; the heap afterwards is the heap after \<^verbatim>\<open>Unref\<close> of the old
  target object, or the same heap when \<open>target\<close> was not in the map; \<open>target\<close> maps to
  the pointer \<open>src\<close> had, \<open>src\<close> is gone and every other key is as before; the moved
  \<^verbatim>\<open>FileState\<close>, its reference count included, is unchanged; and a random-access view
  opened on \<open>target\<close> afterwards reads exactly what the file of \<open>src\<close> held.
\<close>

theorem RenameFile_moves:
  assumes "run world_init ops = OK w"
    and "src \<noteq> target"
    and "map_of (m_file_map (w_env w)) src = Some p"
  shows "(\<forall>s' src' target'. map_of (m_file_map s') src' = None \<longrightarrow>
            RenameFile s' src' target' = IOError src' ''File not found'') \<and>
         (\<exists>f s1. deref (fs_heap (w_env w)) p = Some f \<and>
           RenameFile (w_env w) src target = OK s1 \<and>
           map_of (m_file_map s1) = ((map_of (m_file_map (w_env w)))(target \<mapsto> p))(src := None) \<and>
           (map_of (m_file_map (w_env w)) target = None \<longrightarrow> fs_heap s1 = fs_heap (w_env w)) \<and>
           (\<forall>old. map_of (m_file_map (w_env w)) target = Some old \<longrightarrow>
                  Unref (fs_heap (w_env w)) old = OK (fs_heap s1)) \<and>
           deref (fs_heap s1) p = Some f \<and>
           \<not> FileExists s1 src \<and>
           (\<exists>s2. NewRandomAccessFile s1 target = OK (RandomAccessFileImpl p, s2) \<and>
                 (\<forall>offset n scratch.
                    RandomAccessFile_Read (fs_heap s2) (RandomAccessFileImpl p) offset n scratch =
                      Read f offset n scratch)))"
proof -
  from reachable_rename_conditions(1) [OF assms(1,3)] obtain f where
    f: "deref (fs_heap (w_env w)) p = Some f"
    by blast
  have others: "\<forall>old. map_of (m_file_map (w_env w)) target = Some old \<longrightarrow>
           old \<noteq> p \<and> (\<exists>g. deref (fs_heap (w_env w)) old = Some g \<and> 1 \<le> m_refs g)"
    using reachable_rename_conditions(2) [OF assms(1,3), of target] assms(2) by blast
  note moved = RenameFile_moves_allocated [OF assms(2,3) f others]
  let ?Q = "\<lambda>f s1. RenameFile (w_env w) src target = OK s1 \<and>
           map_of (m_file_map s1) = ((map_of (m_file_map (w_env w)))(target \<mapsto> p))(src := None) \<and>
           (map_of (m_file_map (w_env w)) target = None \<longrightarrow> fs_heap s1 = fs_heap (w_env w)) \<and>
           (\<forall>old. map_of (m_file_map (w_env w)) target = Some old \<longrightarrow>
                  Unref (fs_heap (w_env w)) old = OK (fs_heap s1)) \<and>
           deref (fs_heap s1) p = Some f \<and>
           \<not> FileExists s1 src \<and>
           (\<exists>s2. NewRandomAccessFile s1 target = OK (RandomAccessFileImpl p, s2) \<and>
                 (\<forall>offset n scratch.
                    RandomAccessFile_Read (fs_heap s2) (RandomAccessFileImpl p) offset n scratch =
                      Read f offset n scratch))"
  from conjunct2 [OF moved] obtain s1 where "?Q f s1" ..
  with f have "deref (fs_heap (w_env w)) p = Some f \<and> ?Q f s1" by (rule conjI)
  then have "\<exists>f s1. deref (fs_heap (w_env w)) p = Some f \<and> ?Q f s1" by (intro exI)
  with conjunct1 [OF moved] show ?thesis by (rule conjI)
qed

theorem RenameFile_moves_witness:
  "\<exists>w s1. run world_init [Op_NewWritableFile ''/x'', Op_Append 0 [1, 2], Op_NewWritableFile ''/y'',
                           Op_delete 0, Op_delete 1] = OK w \<and>
     map_of (m_file_map (w_env w)) ''/x'' = Some 1 \<and>
     map_of (m_file_map (w_env w)) ''/y'' = Some 2 \<and>
     RenameFile (w_env w) ''/z'' ''/y'' = IOError ''/z'' ''File not found'' \<and>
     RenameFile (w_env w) ''/x'' ''/y'' = OK s1 \<and>
     map_of (m_file_map s1) ''/y'' = Some 1 \<and>
     map_of (m_file_map s1) ''/x'' = None \<and>
     Unref (fs_heap (w_env w)) 2 = OK (fs_heap s1) \<and>
     deref (fs_heap s1) 1 = deref (fs_heap (w_env w)) 1 \<and>
     deref (fs_heap s1) 2 = None \<and>
     \<not> FileExists s1 ''/x''"
proof -
  let ?ops = "[Op_NewWritableFile ''/x'', Op_Append 0 [1, 2], Op_NewWritableFile ''/y'',
               Op_delete 0, Op_delete 1]"
  have "\<exists>w. run world_init ?ops = OK w \<and>
              map_of (m_file_map (w_env w)) ''/x'' = Some 1 \<and>
              map_of (m_file_map (w_env w)) ''/y'' = Some 2 \<and>
              map_of (m_file_map (w_env w)) ''/z'' = None \<and>
              (\<forall>h'. Unref (fs_heap (w_env w)) 2 = OK h' \<longrightarrow> deref h' 2 = None)"
    by (simp add: eval_defs)
  then obtain w where
    run: "run world_init ?ops = OK w" and
    x: "map_of (m_file_map (w_env w)) ''/x'' = Some 1" and
    y: "map_of (m_file_map (w_env w)) ''/y'' = Some 2" and
    z: "map_of (m_file_map (w_env w)) ''/z'' = None" and
    dead: "\<forall>h'. Unref (fs_heap (w_env w)) 2 = OK h' \<longrightarrow> deref h' 2 = None"
    by blast
  have ne: "''/x'' \<noteq> ''/y''" by simp
  from RenameFile_moves [OF run ne x] z y obtain f s1 where
    absent: "RenameFile (w_env w) ''/z'' ''/y'' = IOError ''/z'' ''File not found''" and
    f: "deref (fs_heap (w_env w)) 1 = Some f" and
    mv: "RenameFile (w_env w) ''/x'' ''/y'' = OK s1" and
    m: "map_of (m_file_map s1) = ((map_of (m_file_map (w_env w)))(''/y'' \<mapsto> 1))(''/x'' := None)" and
    u: "Unref (fs_heap (w_env w)) 2 = OK (fs_heap s1)" and
    keep: "deref (fs_heap s1) 1 = Some f" and
    gone: "\<not> FileExists s1 ''/x''"
    by blast
  from dead u have d2: "deref (fs_heap s1) 2 = None" by blast
  from m have m1: "map_of (m_file_map s1) ''/y'' = Some 1" "map_of (m_file_map s1) ''/x'' = None"
    by simp_all
  from run x y absent mv m1 u f keep d2 gone show ?thesis by auto
qed

text \<open>
  The claim as stated, for every \<open>src\<close> and \<open>target\<close>, fails at \<open>src = target\<close>: the call
  first deletes the target entry, which is the source entry, so the file loses the
  map's reference and no entry is left to read.  Create \<open>"/a"\<close>, append two bytes, delete
  the view and rename \<open>"/a"\<close> to \<open>"/a"\<close>: the map is empty, the file is destroyed, and
  opening \<open>"/a"\<close> fails.
\<close>

theorem RenameFile_counterexample:
  "run world_init [Op_NewWritableFile ''/a'', Op_Append 0 [1, 2], Op_delete 0,
                   Op_RenameFile ''/a'' ''/a''] =
     OK \<lparr>w_env = \<lparr>fs_heap = [None], m_file_map = []\<rparr>, w_views = [None]\<rparr> \<and>
   NewRandomAccessFile \<lparr>fs_heap = [None], m_file_map = []\<rparr> ''/a'' = IOError ''/a'' ''File not found''"
  by (simp add: eval_defs)

subsection \<open>Deleting a file that is still open\<close>

lemma Read_same_content:
  assumes "m_blocks f' = m_blocks f" "m_size f' = m_size f"
  shows "Read f' offset n scratch = Read f offset n scratch"
  unfolding Read_def assms ..

lemma GetChildren_excludes_erased:
  assumes "path = dir @ ''/'' @ name"
  shows "name \<notin> set (GetChildren_loop dir (map_erase m path))"
proof
  assume "name \<in> set (GetChildren_loop dir (map_erase m path))"
  then obtain k where k: "k \<in> set (map fst (map_erase m path))" "prefix (dir @ ''/'') k"
    "name = drop (length dir + 1) k"
    unfolding GetChildren_loop_filter by auto
  from k(2) obtain zs where "k = (dir @ ''/'') @ zs" by (auto simp: prefix_def)
  with k(3) assms have "k = path" by simp
  with k(1) show False by (auto simp: map_erase_def)
qed

text \<open>
  Lifetimes, for \<open>w\<close> the state after any sequence of calls on a new environment (calls
  that returned an error status included; they change nothing).

  A \<^verbatim>\<open>FileState\<close> is never destroyed while a view or a map entry holds a reference to it:
  every pointer with a holder designates an allocated object, whose \<open>refs_\<close> is at least
  the number of its holders.  This holds for every sequence of calls.

  As long as every holder that lets go does so through \<^verbatim>\<open>Unref\<close>, an object is allocated
  if and only if it has a holder, and \<open>refs_\<close> is the number of its holders: the object is
  destroyed exactly when its last holder lets go.  \<^verbatim>\<open>DeleteRecursively\<close> is the one call that
  drops map entries without \<^verbatim>\<open>Unref\<close>, so this part holds for the sequences without it.

  After \<^verbatim>\<open>DeleteFile(path)\<close> has returned \<^verbatim>\<open>OK\<close> in \<open>w\<close>: \<^verbatim>\<open>FileExists(path)\<close> is false; for every
  way to split \<open>path\<close> into a directory, the separator and a name, \<^verbatim>\<open>GetChildren\<close> of the
  directory does not list the name; the views are the same; and for every view that
  was open, its file is still allocated with the same blocks and size, so every read
  through the view returns what it returned before the deletion.
\<close>

lemma file_outlives_its_name:
  assumes "run world_init ops = OK w"
  shows "(\<forall>p. 0 < holders w p \<longrightarrow>
            (\<exists>f. deref (fs_heap (w_env w)) p = Some f \<and> int (holders w p) \<le> m_refs f)) \<and>
         (\<not> list_ex is_DeleteRecursively ops \<longrightarrow>
            (\<forall>p. case deref (fs_heap (w_env w)) p of
                    None \<Rightarrow> holders w p = 0
                  | Some f \<Rightarrow> 0 < holders w p \<and> m_refs f = int (holders w p))) \<and>
         (\<forall>path w'. exec w (Op_DeleteFile path) = OK w' \<longrightarrow>
            \<not> FileExists (w_env w') path \<and>
            (\<forall>dir name. path = dir @ ''/'' @ name \<longrightarrow>
               (\<exists>names. GetChildren (w_env w') dir = OK names \<and> name \<notin> set names)) \<and>
            w_views w' = w_views w \<and>
            (\<forall>i v. view_at w i = Some v \<longrightarrow>
               (\<exists>f f'. deref (fs_heap (w_env w)) (m_file v) = Some f \<and>
                       deref (fs_heap (w_env w')) (m_file v) = Some f' \<and>
                       m_blocks f' = m_blocks f \<and> m_size f' = m_size f) \<and>
               (\<forall>offset n scratch.
                  RandomAccessFile_Read (fs_heap (w_env w')) v offset n scratch =
                    RandomAccessFile_Read (fs_heap (w_env w)) v offset n scratch) \<and>
               (\<forall>n scratch.
                  SequentialFile_Read (fs_heap (w_env w')) v n scratch =
                    SequentialFile_Read (fs_heap (w_env w)) v n scratch)))"
proof -
  let ?h = "fs_heap (w_env w)"
  let ?m = "m_file_map (w_env w)"
  from run_inv [OF world_inv_init assms] obtain leak where
    inv: "world_inv leak w" and exact: "\<not> list_ex is_DeleteRecursively ops \<longrightarrow> leak = (\<lambda>p. 0)"
    by blast
  note hi = world_invD(3) [OF inv]
  have A: "\<forall>p. 0 < holders w p \<longrightarrow> (\<exists>f. deref ?h p = Some f \<and> int (holders w p) \<le> m_refs f)"
  proof (intro allI impI)
    fix p assume "0 < holders w p"
    from heap_inv_live [OF hi this] show "\<exists>f. deref ?h p = Some f \<and> int (holders w p) \<le> m_refs f"
      by fastforce
  qed
  have B: "\<forall>p. case deref ?h p of
                  None \<Rightarrow> holders w p = 0
                | Some f \<Rightarrow> 0 < holders w p \<and> m_refs f = int (holders w p)"
    if "\<not> list_ex is_DeleteRecursively ops"
  proof
    fix p
    from that exact have "leak p = 0" by simp
    with heap_invD [OF hi, of p]
    show "case deref ?h p of None \<Rightarrow> holders w p = 0
          | Some f \<Rightarrow> 0 < holders w p \<and> m_refs f = int (holders w p)"
      by (auto split: option.splits)
  qed
  have C: "\<not> FileExists (w_env w') path \<and>
            (\<forall>dir name. path = dir @ ''/'' @ name \<longrightarrow>
               (\<exists>names. GetChildren (w_env w') dir = OK names \<and> name \<notin> set names)) \<and>
            w_views w' = w_views w \<and>
            (\<forall>i v. view_at w i = Some v \<longrightarrow>
               (\<exists>f f'. deref ?h (m_file v) = Some f \<and>
                       deref (fs_heap (w_env w')) (m_file v) = Some f' \<and>
                       m_blocks f' = m_blocks f \<and> m_size f' = m_size f) \<and>
               (\<forall>offset n scratch.
                  RandomAccessFile_Read (fs_heap (w_env w')) v offset n scratch =
                    RandomAccessFile_Read ?h v offset n scratch) \<and>
               (\<forall>n scratch.
                  SequentialFile_Read (fs_heap (w_env w')) v n scratch =
                    SequentialFile_Read ?h v n scratch))"
    if del: "exec w (Op_DeleteFile path) = OK w'" for path w'
  proof -
    from del obtain p where present: "map_of ?m path = Some p"
      by (cases "map_of ?m path") (auto simp: DeleteFile_def)
    from DeleteFileInternal_present [OF inv present] del present obtain h' where
      w': "w' = w\<lparr>w_env := \<lparr>fs_heap = h', m_file_map = map_erase ?m path\<rparr>\<rparr>" and
      inv': "world_inv leak w'" and ro: "refs_only ?h h'"
      by (auto simp: DeleteFile_def)
    have gone: "\<not> FileExists (w_env w') path"
      by (simp add: w' FileExists_def map_of_map_erase)
    have kids: "\<forall>dir name. path = dir @ ''/'' @ name \<longrightarrow>
               (\<exists>names. GetChildren (w_env w') dir = OK names \<and> name \<notin> set names)"
      using GetChildren_excludes_erased by (simp add: w' GetChildren_def)
    have views: "w_views w' = w_views w" by (simp add: w')
    have each: "(\<exists>f f'. deref ?h (m_file v) = Some f \<and>
                       deref (fs_heap (w_env w')) (m_file v) = Some f' \<and>
                       m_blocks f' = m_blocks f \<and> m_size f' = m_size f) \<and>
               (\<forall>offset n scratch.
                  RandomAccessFile_Read (fs_heap (w_env w')) v offset n scratch =
                    RandomAccessFile_Read ?h v offset n scratch) \<and>
               (\<forall>n scratch.
                  SequentialFile_Read (fs_heap (w_env w')) v n scratch =
                    SequentialFile_Read ?h v n scratch)"
      if v: "view_at w i = Some v" for i v
    proof -
      from v have v': "view_at w' i = Some v" unfolding view_at_def views .
      from view_file_live [OF inv' v'] obtain f' where
        f': "deref (fs_heap (w_env w')) (m_file v) = Some f'" by blast
      with ro w' obtain f where
        f: "deref ?h (m_file v) = Some f" "m_blocks f' = m_blocks f" "m_size f' = m_size f"
        unfolding refs_only_def by fastforce
      have rd: "Read f' offset n scratch = Read f offset n scratch" for offset n scratch
        by (rule Read_same_content [OF f(2,3)])
      have "RandomAccessFile_Read (fs_heap (w_env w')) v offset n scratch =
              RandomAccessFile_Read ?h v offset n scratch" for offset n scratch
        using f f' rd by (cases v) simp_all
      moreover have "SequentialFile_Read (fs_heap (w_env w')) v n scratch =
              SequentialFile_Read ?h v n scratch" for n scratch
        using f f' rd by (cases v) simp_all
      ultimately show ?thesis using f f' by blast
    qed
    from gone kids views each show ?thesis by blast
  qed
  from A B C show ?thesis by blast
qed

lemma file_outlives_its_name_example:
  "\<exists>w w' f. run world_init [Op_NewWritableFile ''/d/f'', Op_Append 0 [1, 2],
                             Op_NewRandomAccessFile ''/d/f''] = OK w \<and>
     exec w (Op_DeleteFile ''/d/f'') = OK w' \<and>
     view_at w 1 = Some (RandomAccessFileImpl 1) \<and>
     0 < holders w 1 \<and>
     deref (fs_heap (w_env w)) 1 = Some f \<and> m_refs f = int (holders w 1) \<and>
     \<not> FileExists (w_env w') ''/d/f'' \<and>
     (\<exists>names. GetChildren (w_env w') ''/d'' = OK names \<and> ''f'' \<notin> set names) \<and>
     w_views w' = w_views w \<and>
     (\<forall>offset n scratch.
        RandomAccessFile_Read (fs_heap (w_env w')) (RandomAccessFileImpl 1) offset n scratch =
          RandomAccessFile_Read (fs_heap (w_env w)) (RandomAccessFileImpl 1) offset n scratch)"
proof -
  let ?ops = "[Op_NewWritableFile ''/d/f'', Op_Append 0 [1, 2], Op_NewRandomAccessFile ''/d/f'']"
  have "\<exists>w. run world_init ?ops = OK w \<and> view_at w 1 = Some (RandomAccessFileImpl 1) \<and>
              0 < holders w 1 \<and> (\<exists>w'. exec w (Op_DeleteFile ''/d/f'') = OK w')"
    by (simp add: eval_defs holders_def)
  then obtain w w' where
    run: "run world_init ?ops = OK w" and v: "view_at w 1 = Some (RandomAccessFileImpl 1)" and
    held: "0 < holders w 1" and del: "exec w (Op_DeleteFile ''/d/f'') = OK w'"
    by blast
  have nodr: "\<not> list_ex is_DeleteRecursively ?ops" by simp
  have path: "''/d/f'' = ''/d'' @ ''/'' @ ''f''" by simp
  note T = file_outlives_its_name [OF run]
  from T nodr have "case deref (fs_heap (w_env w)) 1 of None \<Rightarrow> holders w 1 = 0
                    | Some f \<Rightarrow> 0 < holders w 1 \<and> m_refs f = int (holders w 1)"
    by blast
  with held obtain f where f: "deref (fs_heap (w_env w)) 1 = Some f" "m_refs f = int (holders w 1)"
    by (auto split: option.splits)
  from T del have gone: "\<not> FileExists (w_env w') ''/d/f''"
    and kids: "\<forall>dir name. ''/d/f'' = dir @ ''/'' @ name \<longrightarrow>
               (\<exists>names. GetChildren (w_env w') dir = OK names \<and> name \<notin> set names)"
    and views: "w_views w' = w_views w"
    and each: "\<forall>i v. view_at w i = Some v \<longrightarrow>
               (\<forall>offset n scratch.
                  RandomAccessFile_Read (fs_heap (w_env w')) v offset n scratch =
                    RandomAccessFile_Read (fs_heap (w_env w)) v offset n scratch)"
    by blast+
  from kids path have k: "\<exists>names. GetChildren (w_env w') ''/d'' = OK names \<and> ''f'' \<notin> set names"
    by blast
  from each v have r: "\<forall>offset n scratch.
        RandomAccessFile_Read (fs_heap (w_env w')) (RandomAccessFileImpl 1) offset n scratch =
          RandomAccessFile_Read (fs_heap (w_env w)) (RandomAccessFileImpl 1) offset n scratch"
    by blast
  from run del v held f gone k views r show ?thesis by blast
qed

text \<open>
  Claim C7, where the code departs from it.  Deleting a file under an open view is as
  the claim says, and so is the lifetime of every \<^verbatim>\<open>FileState\<close> whose holders let go
  through \<^verbatim>\<open>Unref\<close> (\<open>file_outlives_its_name\<close> above).  But a \<^verbatim>\<open>FileState\<close> is not always
  destroyed when its last holder lets go.  Create \<open>"/a/b"\<close> in a new environment, delete
  the writable view and call \<^verbatim>\<open>DeleteRecursively("/a")\<close>: no map entry and no view holds
  the object at address 1 any more, and it is still allocated, with \<open>refs_ = 1\<close>.  With
  \<^verbatim>\<open>DeleteFile("/a/b")\<close> as the last call the object is destroyed.
\<close>

theorem unheld_FileState_not_destroyed:
  "run world_init [Op_NewWritableFile ''/a/b'', Op_delete 0, Op_DeleteRecursively ''/a''] =
     OK \<lparr>w_env = \<lparr>fs_heap = [Some \<lparr>m_refs = 1, m_blocks = [], m_size = 0\<rparr>], m_file_map = []\<rparr>,
          w_views = [None]\<rparr> \<and>
   holders \<lparr>w_env = \<lparr>fs_heap = [Some \<lparr>m_refs = 1, m_blocks = [], m_size = 0\<rparr>], m_file_map = []\<rparr>,
            w_views = [None]\<rparr> 1 = 0 \<and>
   deref [Some \<lparr>m_refs = 1, m_blocks = [], m_size = 0\<rparr>] 1 =
     Some \<lparr>m_refs = 1, m_blocks = [], m_size = 0\<rparr> \<and>
   run world_init [Op_NewWritableFile ''/a/b'', Op_delete 0, Op_DeleteFile ''/a/b''] =
     OK \<lparr>w_env = \<lparr>fs_heap = [None], m_file_map = []\<rparr>, w_views = [None]\<rparr>"
  by (simp add: eval_defs holders_def)

subsection \<open>The cursor of a sequential view\<close>

lemma Read_loop_no_IOError: "Read_loop bs block block_offset k dst scratch \<noteq> IOError a b"
proof (induction bs block block_offset k dst scratch rule: Read_loop.induct)
  case (1 blocks block block_offset bytes_to_copy dst scratch)
  then show ?case
    by (subst Read_loop.simps) (simp add: Let_def)
qed

lemma Read_IOError_iff:
  "(\<exists>a b. Read f offset n scratch = IOError a b) = (m_size f < offset)"
  using Read_loop_no_IOError
  by (auto simp: Read_def Let_def and_then_def split: status.splits)

text \<open>
  Claim C10.  After any sequence of calls on a new environment, every sequential view
  that is open has its file allocated and its cursor \<open>pos_\<close> at most the size of the
  file: reads and skips advance the cursor by clamped amounts, and no completed call
  makes a file shorter.  So \<^verbatim>\<open>Skip\<close> through the view returns \<^verbatim>\<open>OK\<close>, never the error of its
  branch \<^verbatim>\<open>pos_ > file_->Size()\<close>, and \<^verbatim>\<open>Read\<close> through the view never returns an error
  status, in particular not "Offset greater than file size.".
\<close>

theorem sequential_cursor_within_file:
  assumes "run world_init ops = OK w"
    and "view_at w i = Some (SequentialFileImpl file pos)"
  shows "\<exists>f. deref (fs_heap (w_env w)) file = Some f \<and> pos \<le> m_size f \<and>
           (\<exists>v'. SequentialFile_Skip (fs_heap (w_env w)) (SequentialFileImpl file pos) n = OK v') \<and>
           (\<forall>a b. SequentialFile_Read (fs_heap (w_env w)) (SequentialFileImpl file pos) n scratch
                    \<noteq> IOError a b)"
proof -
  let ?v = "SequentialFileImpl file pos"
  let ?h = "fs_heap (w_env w)"
  from run_inv [OF world_inv_init assms(1)] obtain leak where inv: "world_inv leak w"
    by blast
  from view_file_live [OF inv assms(2)] obtain f where f: "deref ?h file = Some f"
    by auto
  from assms(2) have "i < length (w_views w)" "w_views w ! i = Some ?v"
    by (auto simp: view_at_def split: if_splits)
  then have "?v \<in> set (live_views (w_views w))" by (rule live_views_member)
  with world_invD(4) [OF inv] have "cursor_ok ?h ?v" unfolding list_all_iff by blast
  with f have le: "pos \<le> m_size f" by simp
  have skip: "\<exists>v'. SequentialFile_Skip ?h ?v n = OK v'"
    using f le by (simp add: Size_def Let_def)
  have "SequentialFile_Read ?h ?v n scratch \<noteq> IOError a b" for a b
  proof
    assume "SequentialFile_Read ?h ?v n scratch = IOError a b"
    with f have "Read f pos n scratch = IOError a b"
      by (cases "Read f pos n scratch") auto
    with Read_IOError_iff [of f pos n scratch] le show False by auto
  qed
  with f le skip show ?thesis by blast
qed

theorem sequential_cursor_within_file_witness:
  "\<exists>w f. run world_init [Op_NewWritableFile ''/f'', Op_Append 0 [1, 2, 3],
                          Op_NewSequentialFile ''/f'', Op_Skip 1 2] = OK w \<and>
         view_at w 1 = Some (SequentialFileImpl 1 2) \<and>
         deref (fs_heap (w_env w)) 1 = Some f \<and> 2 \<le> m_size f \<and>
         (\<exists>v'. SequentialFile_Skip (fs_heap (w_env w)) (SequentialFileImpl 1 2) 7 = OK v') \<and>
         (\<forall>a b. SequentialFile_Read (fs_heap (w_env w)) (SequentialFileImpl 1 2) 7 [] \<noteq> IOError a b)"
proof -
  let ?ops = "[Op_NewWritableFile ''/f'', Op_Append 0 [1, 2, 3], Op_NewSequentialFile ''/f'', Op_Skip 1 2]"
  have "\<exists>w. run world_init ?ops = OK w \<and> view_at w 1 = Some (SequentialFileImpl 1 2)"
    by (simp add: eval_defs)
  then obtain w where w: "run world_init ?ops = OK w" "view_at w 1 = Some (SequentialFileImpl 1 2)"
    by blast
  from sequential_cursor_within_file [OF w, of 7 "[]"] w show ?thesis by blast
qed

end
